theory Spec2Isabelle
  imports Main "HOL-Library.Sublist" "HOL-Library.Char_ord" "HOL-Library.List_Lexorder"
    "HOL-Library.AList"
begin

section \<open>Strings\<close>

text \<open>
  Python's \<^verbatim>\<open>a in s\<close> on two strings: \<open>a\<close> occurs in \<open>s\<close> as a contiguous
  run of characters. The empty string occurs in every string.
\<close>

fun str_contains :: "string \<Rightarrow> string \<Rightarrow> bool" where
  "str_contains a [] = (a = [])"
| "str_contains a (c # cs) = (prefix a (c # cs) \<or> str_contains a cs)"

text \<open>
  Decimal rendering of a natural number, as an f-string renders an
  \<^verbatim>\<open>int\<close>.
\<close>

definition digit_char :: "nat \<Rightarrow> char" where
  "digit_char d = ''0123456789'' ! d"

fun str_of_nat :: "nat \<Rightarrow> string" where
  "str_of_nat n = (if n < 10 then [digit_char n] else str_of_nat (n div 10) @ [digit_char (n mod 10)])"

text \<open>
  \<^verbatim>\<open>str.lower()\<close> on ASCII letters; other characters are left as they
  are.
\<close>

definition lower_char :: "char \<Rightarrow> char" where
  "lower_char c = (if CHR ''A'' \<le> c \<and> c \<le> CHR ''Z'' then char_of (of_char c + (32::nat)) else c)"

definition lower :: "string \<Rightarrow> string" where
  "lower s = map lower_char s"

text \<open>
  \<^verbatim>\<open>os.path.basename\<close> (POSIX): what follows the last slash.
\<close>

definition basename :: "string \<Rightarrow> string" where
  "basename p = rev (takeWhile (\<lambda>c. c \<noteq> CHR ''/'') (rev p))"

section \<open>Exceptions and parsed documents\<close>

text \<open>
  Every exception the program can meet. \<open>HTTPError\<close> carries the status code and the
  response text that \<^verbatim>\<open>e.response.text\<close> reads; \<open>RequestException\<close> stands for the failures of
  \<^verbatim>\<open>requests.get\<close> that are not an \<open>HTTPError\<close> (connection errors, timeouts);
  \<open>DecodeError\<close> for a failure of base64 or UTF-8 decoding; \<open>OSError\<close> for a failure of
  the file system on the report file.
\<close>

datatype exc =
    HTTPError nat string
  | RequestException
  | JSONDecodeError
  | ValueError
  | TypeError
  | AttributeError
  | KeyError
  | YAMLError
  | DecodeError
  | OSError

text \<open>
  What \<^verbatim>\<open>yaml.safe_load\<close> returns: \<^verbatim>\<open>None\<close>, a bool, an int, a str, a list or a dict
  (in document order). Floats, timestamps, byte strings and sets are left out. A dict is an
  association list; a lookup reads the first binding of a key.
\<close>

datatype yaml =
    YNull
  | YBool bool
  | YInt int
  | YStr string
  | YList "yaml list"
  | YMap "(yaml \<times> yaml) list"

text \<open>Truth value of an object in a condition.\<close>

fun truthy :: "yaml \<Rightarrow> bool" where
  "truthy YNull = False"
| "truthy (YBool b) = b"
| "truthy (YInt i) = (i \<noteq> 0)"
| "truthy (YStr s) = (s \<noteq> [])"
| "truthy (YList xs) = (xs \<noteq> [])"
| "truthy (YMap kvs) = (kvs \<noteq> [])"

text \<open>
  \<^verbatim>\<open>k in v\<close> for a string \<open>k\<close>: key membership in a dict, element membership in a list,
  substring test in a str, \<open>TypeError\<close> on anything else.
\<close>

fun py_in :: "string \<Rightarrow> yaml \<Rightarrow> exc + bool" where
  "py_in k (YMap kvs) = Inr (YStr k \<in> set (map fst kvs))"
| "py_in k (YList xs) = Inr (YStr k \<in> set xs)"
| "py_in k (YStr s) = Inr (str_contains k s)"
| "py_in k YNull = Inl TypeError"
| "py_in k (YBool b) = Inl TypeError"
| "py_in k (YInt i) = Inl TypeError"

text \<open>
  \<^verbatim>\<open>v[k]\<close> for a string \<open>k\<close>: the value in a dict (\<open>KeyError\<close> when absent),
  \<open>TypeError\<close> on anything else.
\<close>

fun subscript :: "yaml \<Rightarrow> string \<Rightarrow> exc + yaml" where
  "subscript (YMap kvs) k = (case map_of kvs (YStr k) of None \<Rightarrow> Inl KeyError | Some v \<Rightarrow> Inr v)"
| "subscript YNull k = Inl TypeError"
| "subscript (YBool b) k = Inl TypeError"
| "subscript (YInt i) k = Inl TypeError"
| "subscript (YStr s) k = Inl TypeError"
| "subscript (YList xs) k = Inl TypeError"

text \<open>\<^verbatim>\<open>v.items()\<close>: only a dict has the method.\<close>

fun py_items :: "yaml \<Rightarrow> exc + (yaml \<times> yaml) list" where
  "py_items (YMap kvs) = Inr kvs"
| "py_items YNull = Inl AttributeError"
| "py_items (YBool b) = Inl AttributeError"
| "py_items (YInt i) = Inl AttributeError"
| "py_items (YStr s) = Inl AttributeError"
| "py_items (YList xs) = Inl AttributeError"

text \<open>
  The elements \<^verbatim>\<open>enumerate(v)\<close> walks through: those of a list, the keys of a dict, the
  characters of a str; \<open>TypeError\<close> on anything else.
\<close>

fun py_iter :: "yaml \<Rightarrow> exc + yaml list" where
  "py_iter (YList xs) = Inr xs"
| "py_iter (YMap kvs) = Inr (map fst kvs)"
| "py_iter (YStr s) = Inr (map (\<lambda>c. YStr [c]) s)"
| "py_iter YNull = Inl TypeError"
| "py_iter (YBool b) = Inl TypeError"
| "py_iter (YInt i) = Inl TypeError"

text \<open>\<^verbatim>\<open>v.get(k, d)\<close>: only a dict has the method.\<close>

fun py_get :: "yaml \<Rightarrow> string \<Rightarrow> yaml \<Rightarrow> exc + yaml" where
  "py_get (YMap kvs) k d = Inr (case map_of kvs (YStr k) of None \<Rightarrow> d | Some v \<Rightarrow> v)"
| "py_get YNull k d = Inl AttributeError"
| "py_get (YBool b) k d = Inl AttributeError"
| "py_get (YInt i) k d = Inl AttributeError"
| "py_get (YStr s) k d = Inl AttributeError"
| "py_get (YList xs) k d = Inl AttributeError"

section \<open>Console output and other effects\<close>

text \<open>
  One constructor for each \<^verbatim>\<open>print\<close> of the program, with the values it
  interpolates.
\<close>

datatype message =
    SearchingMsg string
  | RateLimitMsg int
  | SearchErrorMsg exc
  | SearchResponseMsg string
  | ParseErrorMsg string exc
  | TokenRequiredMsg
  | FoundFilesMsg nat
  | AnalyzingMsg nat nat string string
  | FoundInstancesMsg nat string
  | ProcessErrorMsg string exc
  | ScanCompleteMsg string
  | SummaryMsg nat string nat

text \<open>
  What the program does to the outside, in order: a line on the console, a pause
  (\<^verbatim>\<open>time.sleep\<close>, in milliseconds), a call of the YAML parser on a text, an HTTP GET of a URL.
\<close>

datatype effect =
    Print message
  | Sleep nat
  | YamlLoad string
  | HttpGet string

section \<open>Workflow analyzer\<close>

record action_instance =
  job :: yaml
  step_name :: yaml
  action_ref :: yaml
  inputs :: yaml

record file_info =
  fi_repo :: string
  fi_path :: string
  fi_name :: string

text \<open>
  The condition of line 76: \<^verbatim>\<open>'uses' in step and action_name in
  step['uses']\<close>.
\<close>

definition step_uses_action :: "string \<Rightarrow> yaml \<Rightarrow> exc + bool" where
  "step_uses_action action_name step =
     (case py_in ''uses'' step of
        Inl e \<Rightarrow> Inl e
      | Inr b \<Rightarrow>
          if b then
            (case subscript step ''uses'' of
               Inl e \<Rightarrow> Inl e
             | Inr r \<Rightarrow> py_in action_name r)
          else Inr False)"

text \<open>Lines 78 to 87: the record appended for a step that passed the condition.\<close>

definition make_instance :: "yaml \<Rightarrow> nat \<Rightarrow> yaml \<Rightarrow> exc + action_instance" where
  "make_instance job_name step_index step =
     (case py_get step ''name'' (YStr (''Step '' @ str_of_nat (step_index + 1))) of
        Inl e \<Rightarrow> Inl e
      | Inr nm \<Rightarrow>
          (case subscript step ''uses'' of
             Inl e \<Rightarrow> Inl e
           | Inr r \<Rightarrow>
               (case py_get step ''with'' (YMap []) of
                  Inl e \<Rightarrow> Inl e
                | Inr w \<Rightarrow>
                    Inr \<lparr>job = job_name, step_name = nm, action_ref = r, inputs = w\<rparr>)))"

text \<open>
  The inner loop (line 75), from step index \<open>i\<close> on, appending to
  \<open>acc\<close>.
\<close>

fun steps_loop :: "string \<Rightarrow> yaml \<Rightarrow> nat \<Rightarrow> yaml list \<Rightarrow> action_instance list \<Rightarrow> exc + action_instance list" where
  "steps_loop action_name job_name i [] acc = Inr acc"
| "steps_loop action_name job_name i (step # rest) acc =
     (case step_uses_action action_name step of
        Inl e \<Rightarrow> Inl e
      | Inr b \<Rightarrow>
          if b then
            (case make_instance job_name i step of
               Inl e \<Rightarrow> Inl e
             | Inr inst \<Rightarrow> steps_loop action_name job_name (i + 1) rest (acc @ [inst]))
          else steps_loop action_name job_name (i + 1) rest acc)"

text \<open>The outer loop (line 72) over the items of the jobs dict.\<close>

fun jobs_loop :: "string \<Rightarrow> (yaml \<times> yaml) list \<Rightarrow> action_instance list \<Rightarrow> exc + action_instance list" where
  "jobs_loop action_name [] acc = Inr acc"
| "jobs_loop action_name ((job_name, job_config) # rest) acc =
     (case py_in ''steps'' job_config of
        Inl e \<Rightarrow> Inl e
      | Inr b \<Rightarrow>
          if b then
            (case subscript job_config ''steps'' of
               Inl e \<Rightarrow> Inl e
             | Inr ss \<Rightarrow>
                 (case py_iter ss of
                    Inl e \<Rightarrow> Inl e
                  | Inr steps \<Rightarrow>
                      (case steps_loop action_name job_name 0 steps acc of
                         Inl e \<Rightarrow> Inl e
                       | Inr acc' \<Rightarrow> jobs_loop action_name rest acc')))
          else jobs_loop action_name rest acc)"

text \<open>
  Lines 68 to 89: what the body of the \<^verbatim>\<open>try\<close> does with the parsed
  document.
\<close>

definition extract_instances :: "string \<Rightarrow> yaml \<Rightarrow> exc + action_instance list" where
  "extract_instances action_name workflow_data =
     (if truthy workflow_data then
        (case py_in ''jobs'' workflow_data of
           Inl e \<Rightarrow> Inl e
         | Inr b \<Rightarrow>
             if b then
               (case subscript workflow_data ''jobs'' of
                  Inl e \<Rightarrow> Inl e
                | Inr js \<Rightarrow>
                    (case py_items js of
                       Inl e \<Rightarrow> Inl e
                     | Inr kvs \<Rightarrow> jobs_loop action_name kvs []))
             else Inr [])
      else Inr [])"

text \<open>
  \<^verbatim>\<open>analyze_workflow_content\<close>. The parser \<^verbatim>\<open>yaml.safe_load\<close> is a parameter: it
  returns a document or raises. The result is the list returned together with the effects in
  order: a parser call when the parser is called, and the diagnostic of the handler when an
  exception reached it.
\<close>

definition analyze_workflow_content ::
  "(string \<Rightarrow> exc + yaml) \<Rightarrow> string \<Rightarrow> string \<Rightarrow> file_info \<Rightarrow> action_instance list \<times> effect list" where
  "analyze_workflow_content safe_load content action_name fi =
     (if \<not> str_contains action_name content then ([], [])
      else
        (case safe_load content of
           Inl e \<Rightarrow> ([], [YamlLoad content, Print (ParseErrorMsg (fi_path fi) e)])
         | Inr workflow_data \<Rightarrow>
             (case extract_instances action_name workflow_data of
                Inl e \<Rightarrow> ([], [YamlLoad content, Print (ParseErrorMsg (fi_path fi) e)])
              | Inr instances \<Rightarrow> (instances, [YamlLoad content]))))"

section \<open>Remote calls\<close>

text \<open>
  A search result item, read at \<^verbatim>\<open>item['repository']['full_name']\<close>, \<^verbatim>\<open>item['path']\<close> and
  \<^verbatim>\<open>item['url']\<close>; the decoded body of a search response, with the optional \<^verbatim>\<open>message\<close>
  and \<^verbatim>\<open>items\<close> members; the decoded body of a content response. The JSON bodies are taken
  in the shape the remote interface documents.
\<close>

record candidate =
  c_repo :: string
  c_path :: string
  c_url :: string

record search_body =
  sb_message :: "string option"
  sb_items :: "candidate list option"

record content_info =
  ci_encoding :: string
  ci_content :: string

text \<open>
  An HTTP response: status code, body text, the \<^verbatim>\<open>X-RateLimit-Reset\<close> header when present,
  and what \<^verbatim>\<open>response.json()\<close> returns or raises.
\<close>

record 'j response =
  r_status :: nat
  r_text :: string
  r_reset :: "string option"
  r_json :: "exc + 'j"

text \<open>
  Everything the program asks of the outside: URL quoting, the two GET requests (by URL and
  token; a request returns a response or raises), the YAML parser, base64 decoding followed
  by UTF-8 decoding, \<^verbatim>\<open>int\<close> on a header text, the clock read by
  \<^verbatim>\<open>int(time.time())\<close>, and the file system under the report: opening a path for
  writing, the \<open>k\<close>-th \<^verbatim>\<open>f.write\<close> on it (counted from 0) and closing it, each of which
  succeeds (\<open>None\<close>) or raises.
\<close>

record world =
  url_quote :: "string \<Rightarrow> string"
  search_get :: "string \<Rightarrow> string \<Rightarrow> exc + search_body response"
  content_get :: "string \<Rightarrow> string \<Rightarrow> exc + content_info response"
  yaml_safe_load :: "string \<Rightarrow> exc + yaml"
  b64decode_utf8 :: "string \<Rightarrow> exc + string"
  int_of_str :: "string \<Rightarrow> exc + int"
  now :: int
  fs_open :: "string \<Rightarrow> exc option"
  fs_write :: "string \<Rightarrow> nat \<Rightarrow> exc option"
  fs_close :: "string \<Rightarrow> exc option"

text \<open>
  \<^verbatim>\<open>response.raise_for_status()\<close>: an \<open>HTTPError\<close> for a
  status from 400 to 599.
\<close>

definition raise_for_status :: "'j response \<Rightarrow> exc + unit" where
  "raise_for_status r =
     (if 400 \<le> r_status r \<and> r_status r < 600 then Inl (HTTPError (r_status r) (r_text r))
      else Inr ())"

section \<open>Search executor\<close>

definition search_query :: "string \<Rightarrow> string \<Rightarrow> bool \<Rightarrow> string" where
  "search_query org action_name broader_search =
     (if broader_search then
        ''org:'' @ org @ '' path:.github/workflows/ filename:.yml OR filename:.yaml''
      else ''org:'' @ org @ '' path:.github/workflows/ '' @ action_name)"

definition search_url :: "world \<Rightarrow> string \<Rightarrow> string \<Rightarrow> bool \<Rightarrow> string" where
  "search_url w org action_name broader_search =
     ''https://api.github.com/search/code?q=''
       @ url_quote w (search_query org action_name broader_search) @ ''&per_page=100''"

text \<open>The test of line 33 on the decoded body.\<close>

definition rate_limited :: "search_body \<Rightarrow> bool" where
  "rate_limited body =
     (case sb_message body of None \<Rightarrow> False | Some m \<Rightarrow> str_contains ''rate limit'' (lower m))"

text \<open>
  Lines 28 to 39, the body of the \<^verbatim>\<open>try\<close>: the value returned or the exception raised,
  with the effects up to there.
\<close>

definition search_try :: "world \<Rightarrow> string \<Rightarrow> string \<Rightarrow> (exc + candidate list) \<times> effect list" where
  "search_try w url token =
     (case search_get w url token of
        Inl e \<Rightarrow> (Inl e, [HttpGet url])
      | Inr r \<Rightarrow>
          (case raise_for_status r of
             Inl e \<Rightarrow> (Inl e, [HttpGet url])
           | Inr u \<Rightarrow>
               (case r_json r of
                  Inl e \<Rightarrow> (Inl e, [HttpGet url])
                | Inr search_results \<Rightarrow>
                    if rate_limited search_results then
                      (case (case r_reset r of None \<Rightarrow> Inr 0 | Some h \<Rightarrow> int_of_str w h) of
                         Inl e \<Rightarrow> (Inl e, [HttpGet url])
                       | Inr reset_time \<Rightarrow>
                           (Inr [], [HttpGet url,
                                     Print (RateLimitMsg (max 0 (reset_time - now w)))]))
                    else
                      (Inr (case sb_items search_results of None \<Rightarrow> [] | Some xs \<Rightarrow> xs),
                       [HttpGet url]))))"

text \<open>
  Lines 40 to 43: the handler takes an \<open>HTTPError\<close> and nothing else; any other exception
  leaves the function.
\<close>

fun search_except :: "exc \<Rightarrow> (exc + candidate list) \<times> effect list" where
  "search_except (HTTPError st txt) =
     (Inr [], [Print (SearchErrorMsg (HTTPError st txt)), Print (SearchResponseMsg txt)])"
| "search_except RequestException = (Inl RequestException, [])"
| "search_except JSONDecodeError = (Inl JSONDecodeError, [])"
| "search_except ValueError = (Inl ValueError, [])"
| "search_except TypeError = (Inl TypeError, [])"
| "search_except AttributeError = (Inl AttributeError, [])"
| "search_except KeyError = (Inl KeyError, [])"
| "search_except YAMLError = (Inl YAMLError, [])"
| "search_except DecodeError = (Inl DecodeError, [])"
| "search_except OSError = (Inl OSError, [])"

definition search_for_action ::
  "world \<Rightarrow> string \<Rightarrow> string \<Rightarrow> string \<Rightarrow> bool \<Rightarrow> (exc + candidate list) \<times> effect list" where
  "search_for_action w org action_name token broader_search =
     (case search_try w (search_url w org action_name broader_search) token of
        (Inl e, effs) \<Rightarrow>
          (fst (search_except e), Print (SearchingMsg org) # effs @ snd (search_except e))
      | (Inr items, effs) \<Rightarrow> (Inr items, Print (SearchingMsg org) # effs))"

section \<open>Content fetcher\<close>

definition get_file_content :: "world \<Rightarrow> string \<Rightarrow> string \<Rightarrow> exc + string" where
  "get_file_content w url token =
     (case content_get w url token of
        Inl e \<Rightarrow> Inl e
      | Inr r \<Rightarrow>
          (case raise_for_status r of
             Inl e \<Rightarrow> Inl e
           | Inr u \<Rightarrow>
               (case r_json r of
                  Inl e \<Rightarrow> Inl e
                | Inr content_info \<Rightarrow>
                    if ci_encoding content_info = ''base64''
                    then b64decode_utf8 w (ci_content content_info)
                    else Inr (ci_content content_info))))"

section \<open>Scan loop\<close>

text \<open>A stored usage: the instance with the name and path of its workflow file.\<close>

record usage =
  u_workflow :: string
  u_path :: string
  u_instance :: action_instance

text \<open>
  The variables of the loop of line 118, and the effects so far. \<open>usage_by_repo\<close> is the
  dict in insertion order.
\<close>

record scan_state =
  usage_by_repo :: "(string \<times> usage list) list"
  total_usages :: nat
  files_processed :: nat
  trace :: "effect list"

text \<open>Lines 141 and 142: a new key gets the empty list, at the end of the dict.\<close>

definition ensure_repo :: "string \<Rightarrow> (string \<times> usage list) list \<Rightarrow> (string \<times> usage list) list" where
  "ensure_repo repo_name d = (if repo_name \<in> set (map fst d) then d else d @ [(repo_name, [])])"

text \<open>Lines 144 to 149: each instance is appended to the list under the repository.\<close>

definition record_instances ::
  "string \<Rightarrow> string \<Rightarrow> string \<Rightarrow> action_instance list \<Rightarrow> (string \<times> usage list) list
     \<Rightarrow> (string \<times> usage list) list" where
  "record_instances repo_name file_name file_path instances d =
     foldl (\<lambda>d' inst. AList.map_entry repo_name
              (\<lambda>us. us @ [\<lparr>u_workflow = file_name, u_path = file_path, u_instance = inst\<rparr>]) d')
       d instances"

text \<open>
  One turn of the loop, lines 119 to 155. The pause of line 152 is the last statement inside
  the \<^verbatim>\<open>try\<close>; the handler of line 154 prints the diagnostic of the file.
\<close>

definition process_item ::
  "world \<Rightarrow> string \<Rightarrow> string \<Rightarrow> nat \<Rightarrow> scan_state \<Rightarrow> candidate \<Rightarrow> scan_state" where
  "process_item w action_name token total_files st item =
     (let repo_name = c_repo item;
          file_path = c_path item;
          file_name = basename file_path;
          n = files_processed st + 1;
          tr = trace st @ [Print (AnalyzingMsg n total_files repo_name file_path),
                           HttpGet (c_url item)]
      in case get_file_content w (c_url item) token of
           Inl e \<Rightarrow>
             st\<lparr>files_processed := n, trace := tr @ [Print (ProcessErrorMsg file_path e)]\<rparr>
         | Inr content \<Rightarrow>
             (case analyze_workflow_content (yaml_safe_load w) content action_name
                     \<lparr>fi_repo = repo_name, fi_path = file_path, fi_name = file_name\<rparr> of
                (instances, effs) \<Rightarrow>
                  if instances \<noteq> [] then
                    st\<lparr>usage_by_repo :=
                         record_instances repo_name file_name file_path instances
                           (ensure_repo repo_name (usage_by_repo st)),
                       total_usages := total_usages st + length instances,
                       files_processed := n,
                       trace := tr @ effs
                         @ [Print (FoundInstancesMsg (length instances) action_name), Sleep 500]\<rparr>
                  else st\<lparr>files_processed := n, trace := tr @ effs @ [Sleep 500]\<rparr>))"

definition scan_loop ::
  "world \<Rightarrow> string \<Rightarrow> string \<Rightarrow> candidate list \<Rightarrow> effect list \<Rightarrow> scan_state" where
  "scan_loop w action_name token search_results effs =
     foldl (process_item w action_name token (length search_results))
       \<lparr>usage_by_repo = [], total_usages = 0, files_processed = 0, trace = effs\<rparr>
       search_results"

section \<open>Report\<close>

text \<open>
  One constructor for each \<^verbatim>\<open>f.write\<close> of the program, with the values
  it interpolates.
\<close>

datatype report_line =
    ReportTitle string string
  | TitleRule
  | ReposLine nat
  | TotalLine nat
  | DetailTitle
  | DetailRule
  | RepoLine string
  | RepoRule nat
  | InstanceLine nat
  | WorkflowLine string string
  | JobLine yaml
  | StepLine yaml
  | RefLine yaml
  | ConfigTitle
  | ParamLine yaml yaml
  | InstanceEnd
  | RepoEnd
  | NoInstancesLine

text \<open>
  What a piece of the writer leaves in the file, and the exception that stopped it, if any.
  Lines 181 to 184: the title of the configuration block is written before
  \<^verbatim>\<open>.items()\<close> is called on the inputs.
\<close>

definition write_inputs :: "yaml \<Rightarrow> report_line list \<times> exc option" where
  "write_inputs v =
     (if truthy v then
        (case py_items v of
           Inl e \<Rightarrow> ([ConfigTitle], Some e)
         | Inr kvs \<Rightarrow> (ConfigTitle # map (\<lambda>pv. ParamLine (fst pv) (snd pv)) kvs, None))
      else ([], None))"

definition write_instance :: "nat \<Rightarrow> usage \<Rightarrow> report_line list \<times> exc option" where
  "write_instance i u =
     (case write_inputs (inputs (u_instance u)) of
        (ls, e) \<Rightarrow>
          ([InstanceLine i, WorkflowLine (u_workflow u) (u_path u), JobLine (job (u_instance u)),
            StepLine (step_name (u_instance u)), RefLine (action_ref (u_instance u))]
           @ ls @ (case e of None \<Rightarrow> [InstanceEnd] | Some x \<Rightarrow> []), e))"

fun write_instances :: "nat \<Rightarrow> usage list \<Rightarrow> report_line list \<times> exc option" where
  "write_instances i [] = ([], None)"
| "write_instances i (u # us) =
     (case write_instance i u of
        (ls, Some e) \<Rightarrow> (ls, Some e)
      | (ls, None) \<Rightarrow> (case write_instances (i + 1) us of (ls', e) \<Rightarrow> (ls @ ls', e)))"

definition write_repo :: "string \<times> usage list \<Rightarrow> report_line list \<times> exc option" where
  "write_repo p =
     (case write_instances 1 (snd p) of
        (ls, e) \<Rightarrow>
          ([RepoLine (fst p), RepoRule (length (''Repository: '' @ fst p))]
           @ ls @ (case e of None \<Rightarrow> [RepoEnd] | Some x \<Rightarrow> []), e))"

fun write_repos :: "(string \<times> usage list) list \<Rightarrow> report_line list \<times> exc option" where
  "write_repos [] = ([], None)"
| "write_repos (p # ps) =
     (case write_repo p of
        (ls, Some e) \<Rightarrow> (ls, Some e)
      | (ls, None) \<Rightarrow> (case write_repos ps of (ls', e) \<Rightarrow> (ls @ ls', e)))"

text \<open>
  Lines 158 to 190. \<^verbatim>\<open>sorted\<close> compares the pairs by the repository name first; the names
  are the keys of a dict, so no two are equal and the lists are never compared.
\<close>

definition write_report ::
  "string \<Rightarrow> string \<Rightarrow> (string \<times> usage list) list \<Rightarrow> nat \<Rightarrow> report_line list \<times> exc option" where
  "write_report action_name org d total_count =
     (let repos_with_action = length d;
          header = [ReportTitle action_name org, TitleRule, ReposLine repos_with_action,
                    TotalLine total_count]
      in if repos_with_action > 0 then
           (case write_repos (sort_key fst d) of
              (ls, e) \<Rightarrow> (header @ [DetailTitle, DetailRule] @ ls, e))
         else (header @ [NoInstancesLine], None))"

text \<open>
  The writes of the \<^verbatim>\<open>with\<close> block reach the file one by one, from write number \<open>k\<close> on:
  what the file holds afterwards, and the exception of the first write that failed.
\<close>

fun write_lines ::
  "(nat \<Rightarrow> exc option) \<Rightarrow> nat \<Rightarrow> report_line list \<Rightarrow> report_line list \<times> exc option" where
  "write_lines wr k [] = ([], None)"
| "write_lines wr k (l # ls) =
     (case wr k of
        Some e \<Rightarrow> ([], Some e)
      | None \<Rightarrow> (case write_lines wr (k + 1) ls of (written, e) \<Rightarrow> (l # written, e)))"

text \<open>
  Line 160, \<^verbatim>\<open>with open(args.output, 'w') as f\<close>, around a body that issues the writes
  \<open>fst body\<close> and then, possibly, raises \<open>snd body\<close>. When the file cannot be opened there is no
  file and the exception leaves the statement. Otherwise the file holds the writes up to the
  first that failed; the file is closed on the way out, also when the body raised, and an
  exception of the closing replaces that of the body.
\<close>

definition with_report_file ::
  "world \<Rightarrow> string \<Rightarrow> report_line list \<times> exc option \<Rightarrow> report_line list option \<times> exc option" where
  "with_report_file w path body =
     (case fs_open w path of
        Some e \<Rightarrow> (None, Some e)
      | None \<Rightarrow>
          (case write_lines (fs_write w path) 0 (fst body) of
             (written, werr) \<Rightarrow>
               (Some written,
                case (case werr of Some e \<Rightarrow> Some e | None \<Rightarrow> snd body) of
                  Some e \<Rightarrow> Some (case fs_close w path of None \<Rightarrow> e | Some e' \<Rightarrow> e')
                | None \<Rightarrow> fs_close w path)))"

section \<open>Entry point\<close>

record args =
  arg_org :: string
  arg_action :: string
  arg_token :: "string option"
  arg_output :: string
  arg_broad_search :: bool

text \<open>How the process ends: an exit status, or an exception that nothing caught.\<close>

datatype outcome = Exit nat | Uncaught exc

text \<open>
  A run: the effects in order, what the report file holds when it was opened, and the
  outcome.
\<close>

record run =
  run_trace :: "effect list"
  run_report :: "report_line list option"
  run_outcome :: outcome

definition main :: "world \<Rightarrow> args \<Rightarrow> run" where
  "main w a =
     (case arg_token a of
        None \<Rightarrow> \<lparr>run_trace = [Print TokenRequiredMsg], run_report = None, run_outcome = Exit 1\<rparr>
      | Some token \<Rightarrow>
          if token = [] then
            \<lparr>run_trace = [Print TokenRequiredMsg], run_report = None, run_outcome = Exit 1\<rparr>
          else
            (case search_for_action w (arg_org a) (arg_action a) token (arg_broad_search a) of
               (Inl e, effs) \<Rightarrow> \<lparr>run_trace = effs, run_report = None, run_outcome = Uncaught e\<rparr>
             | (Inr search_results, effs) \<Rightarrow>
                 (let st = scan_loop w (arg_action a) token search_results
                             (effs @ [Print (FoundFilesMsg (length search_results))])
                  in case with_report_file w (arg_output a)
                            (write_report (arg_action a) (arg_org a) (usage_by_repo st)
                               (total_usages st)) of
                       (file, Some e) \<Rightarrow>
                         \<lparr>run_trace = trace st, run_report = file, run_outcome = Uncaught e\<rparr>
                     | (file, None) \<Rightarrow>
                         \<lparr>run_trace = trace st
                            @ [Print (ScanCompleteMsg (arg_output a)),
                               Print (SummaryMsg (total_usages st) (arg_action a)
                                        (length (usage_by_repo st)))],
                          run_report = file, run_outcome = Exit 0\<rparr>)))"

section \<open>The analyzer as the specification describes it\<close>

text \<open>
  The value of a field of a mapping node: none when the node is not a mapping or has no such
  key.
\<close>

fun field :: "yaml \<Rightarrow> string \<Rightarrow> yaml option" where
  "field (YMap kvs) k = map_of kvs (YStr k)"
| "field YNull k = None"
| "field (YBool b) k = None"
| "field (YInt i) k = None"
| "field (YStr s) k = None"
| "field (YList xs) k = None"

text \<open>
  The display name of the step at zero-based index \<open>k\<close>, in the specification's
  words: the \<open>name\<close> field when present, and otherwise \<open>Step\<close>
  followed by \<open>k + 1\<close>.
\<close>

definition spec_display_name :: "nat \<Rightarrow> yaml \<Rightarrow> yaml" where
  "spec_display_name k step =
     (case field step ''name'' of Some v \<Rightarrow> v | None \<Rightarrow> YStr (''Step '' @ str_of_nat (k + 1)))"

text \<open>
  The step sequence of a job configuration, as the inner loop walks through it; empty when
  there is no \<open>steps\<close> field.
\<close>

definition steps_seq :: "yaml \<Rightarrow> yaml list" where
  "steps_seq job_config =
     (case field job_config ''steps'' of
        None \<Rightarrow> []
      | Some ss \<Rightarrow> (case py_iter ss of Inl e \<Rightarrow> [] | Inr xs \<Rightarrow> xs))"

text \<open>The jobs of a document in document order; empty when there is no job collection.\<close>

definition jobs_seq :: "yaml \<Rightarrow> (yaml \<times> yaml) list" where
  "jobs_seq doc =
     (case field doc ''jobs'' of
        None \<Rightarrow> []
      | Some js \<Rightarrow> (case py_items js of Inl e \<Rightarrow> [] | Inr kvs \<Rightarrow> kvs))"

text \<open>
  The steps that pass the test of line 76, each with its index, counted from \<open>i\<close>.
\<close>

definition selected :: "string \<Rightarrow> nat \<Rightarrow> yaml list \<Rightarrow> (nat \<times> yaml) list" where
  "selected a i steps = filter (\<lambda>ks. step_uses_action a (snd ks) = Inr True) (enumerate i steps)"

text \<open>
  The record that stands for a selected step: job name, display name, the reference and the
  inputs verbatim (the empty mapping when absent).
\<close>

definition instance_of :: "yaml \<Rightarrow> nat \<times> yaml \<Rightarrow> action_instance" where
  "instance_of jn ks =
     \<lparr>job = jn, step_name = spec_display_name (fst ks) (snd ks),
      action_ref = (case field (snd ks) ''uses'' of Some r \<Rightarrow> r | None \<Rightarrow> YNull),
      inputs = (case field (snd ks) ''with'' of Some w \<Rightarrow> w | None \<Rightarrow> YMap [])\<rparr>"

text \<open>The instances of one job, in the order of its steps.\<close>

definition job_instances :: "string \<Rightarrow> yaml \<times> yaml \<Rightarrow> action_instance list" where
  "job_instances a j = map (instance_of (fst j)) (selected a 0 (steps_seq (snd j)))"

text \<open>
  The documented shape of a workflow document, node by node. A step is a mapping whose
  \<open>uses\<close>, when present, is a string.
\<close>

fun step_shaped :: "yaml \<Rightarrow> bool" where
  "step_shaped (YMap kvs) =
     (case map_of kvs (YStr ''uses'') of
        None \<Rightarrow> True
      | Some r \<Rightarrow> (case r of YStr t \<Rightarrow> True | _ \<Rightarrow> False))"
| "step_shaped YNull = False"
| "step_shaped (YBool b) = False"
| "step_shaped (YInt i) = False"
| "step_shaped (YStr s) = False"
| "step_shaped (YList xs) = False"

text \<open>
  A job configuration is a mapping whose \<open>steps\<close>, when present, is a sequence of
  steps.
\<close>

fun job_shaped :: "yaml \<Rightarrow> bool" where
  "job_shaped (YMap kvs) =
     (case map_of kvs (YStr ''steps'') of
        None \<Rightarrow> True
      | Some ss \<Rightarrow> (case ss of YList xs \<Rightarrow> list_all step_shaped xs | _ \<Rightarrow> False))"
| "job_shaped YNull = False"
| "job_shaped (YBool b) = False"
| "job_shaped (YInt i) = False"
| "job_shaped (YStr s) = False"
| "job_shaped (YList xs) = False"

text \<open>
  A document is absent, or a mapping whose \<open>jobs\<close>, when present, is a mapping of
  job configurations.
\<close>

fun doc_shaped :: "yaml \<Rightarrow> bool" where
  "doc_shaped YNull = True"
| "doc_shaped (YMap kvs) =
     (case map_of kvs (YStr ''jobs'') of
        None \<Rightarrow> True
      | Some js \<Rightarrow> (case js of YMap jkvs \<Rightarrow> list_all (\<lambda>j. job_shaped (snd j)) jkvs | _ \<Rightarrow> False))"
| "doc_shaped (YBool b) = False"
| "doc_shaped (YInt i) = False"
| "doc_shaped (YStr s) = False"
| "doc_shaped (YList xs) = False"

text \<open>
  The matching rule in the specification's words: the step has a reference field whose value
  is a string that contains the target as a substring.
\<close>

definition spec_ref_matches :: "string \<Rightarrow> yaml \<Rightarrow> bool" where
  "spec_ref_matches a step =
     (case field step ''uses'' of
        None \<Rightarrow> False
      | Some r \<Rightarrow> (case r of YStr t \<Rightarrow> str_contains a t | _ \<Rightarrow> False))"

text \<open>The reference field of a step.\<close>

definition spec_reference :: "yaml \<Rightarrow> yaml" where
  "spec_reference step = (case field step ''uses'' of None \<Rightarrow> YNull | Some r \<Rightarrow> r)"

text \<open>The reference of an instance is a string that contains the target.\<close>

definition ref_contains :: "string \<Rightarrow> action_instance \<Rightarrow> bool" where
  "ref_contains a inst = (case action_ref inst of YStr t \<Rightarrow> str_contains a t | _ \<Rightarrow> False)"

section \<open>The aggregate as the specification describes it\<close>

text \<open>
  The usages found in one candidate file, each with its repository: none when the fetch
  raises, and otherwise one for each instance the analyzer returns.
\<close>

definition found_in :: "world \<Rightarrow> string \<Rightarrow> string \<Rightarrow> candidate \<Rightarrow> (string \<times> usage) list" where
  "found_in w a tok item =
     (case get_file_content w (c_url item) tok of
        Inl e \<Rightarrow> []
      | Inr content \<Rightarrow>
          map (\<lambda>i. (c_repo item,
                    \<lparr>u_workflow = basename (c_path item), u_path = c_path item, u_instance = i\<rparr>))
            (fst (analyze_workflow_content (yaml_safe_load w) content a
                    \<lparr>fi_repo = c_repo item, fi_path = c_path item,
                     fi_name = basename (c_path item)\<rparr>)))"

text \<open>The usages discovered by a scan, in the order of discovery.\<close>

definition discovered :: "world \<Rightarrow> string \<Rightarrow> string \<Rightarrow> candidate list \<Rightarrow> (string \<times> usage) list" where
  "discovered w a tok items = concat (map (found_in w a tok) items)"

text \<open>The usages of one repository among those discovered, in the order of discovery.\<close>

definition usages_of :: "string \<Rightarrow> (string \<times> usage) list \<Rightarrow> usage list" where
  "usages_of r found = map snd (filter (\<lambda>p. fst p = r) found)"

text \<open>
  What the dict of the loop holds once the usages \<open>found\<close> have been discovered:
  one key for each repository with a usage, bound to the usages of the repository in the order
  of discovery.
\<close>

definition dict_inv :: "(string \<times> usage list) list \<Rightarrow> (string \<times> usage) list \<Rightarrow> bool" where
  "dict_inv d found =
     (distinct (map fst d)
      \<and> map_of d = (\<lambda>r. if r \<in> fst ` set found then Some (usages_of r found) else None))"

text \<open>
  The report in the words of the format of the specification. The configuration block of a
  usage: a title and one line for each parameter, and nothing at all when the mapping of
  inputs is empty or absent.
\<close>

fun spec_config :: "yaml \<Rightarrow> report_line list" where
  "spec_config (YMap kvs) =
     (if kvs = [] then [] else ConfigTitle # map (\<lambda>pv. ParamLine (fst pv) (snd pv)) kvs)"
| "spec_config YNull = []"
| "spec_config (YBool b) = []"
| "spec_config (YInt i) = []"
| "spec_config (YStr s) = []"
| "spec_config (YList xs) = []"

text \<open>The block of the usage numbered \<open>i\<close>.\<close>

definition spec_instance_section :: "nat \<Rightarrow> usage \<Rightarrow> report_line list" where
  "spec_instance_section i u =
     [InstanceLine i, WorkflowLine (u_workflow u) (u_path u), JobLine (job (u_instance u)),
      StepLine (step_name (u_instance u)), RefLine (action_ref (u_instance u))]
     @ spec_config (inputs (u_instance u)) @ [InstanceEnd]"

text \<open>
  The section of a repository: its name, a rule as long as the line of the name, and the
  blocks of its usages in the order given, numbered from 1.
\<close>

definition spec_repo_section :: "string \<Rightarrow> usage list \<Rightarrow> report_line list" where
  "spec_repo_section r us =
     [RepoLine r, RepoRule (length (''Repository: '' @ r))]
     @ concat (map (\<lambda>iu. spec_instance_section (fst iu) (snd iu)) (enumerate 1 us))
     @ [RepoEnd]"

text \<open>
  The whole report for the usages \<open>found\<close>, given in the order of discovery: the header with
  the number of repositories and the number of usages; then the line that nothing was found,
  or the detailed part with one section for each repository, the repositories in increasing
  lexicographic order of their names and the usages of each in the order of discovery.
\<close>

definition spec_report :: "string \<Rightarrow> string \<Rightarrow> (string \<times> usage) list \<Rightarrow> report_line list" where
  "spec_report a org found =
     [ReportTitle a org, TitleRule, ReposLine (card (fst ` set found)), TotalLine (length found)]
     @ (if found = [] then [NoInstancesLine]
        else [DetailTitle, DetailRule]
          @ concat (map (\<lambda>r. spec_repo_section r (usages_of r found))
                      (sorted_list_of_set (fst ` set found))))"

text \<open>The repository names of a report, in the order of its repository lines.\<close>

definition repo_lines :: "report_line list \<Rightarrow> string list" where
  "repo_lines ls = List.map_filter (\<lambda>l. case l of RepoLine r \<Rightarrow> Some r | _ \<Rightarrow> None) ls"


text \<open>The number of usage records stored in the dict, over all repositories.\<close>

definition stored_count :: "(string \<times> usage list) list \<Rightarrow> nat" where
  "stored_count d = sum_list (map (\<lambda>p. length (snd p)) d)"

section \<open>Properties of the workflow analyzer\<close>

lemma str_of_nat_digit: "n < 10 \<Longrightarrow> str_of_nat n = [digit_char n]"
  by (simp add: str_of_nat.simps)

declare str_of_nat.simps [simp del]

lemma str_contains_sublist: "str_contains a s = sublist a s"
  by (induction s) (auto simp: sublist_Cons_right)

lemma uses_is_map:
  assumes "step_uses_action a s = Inr True"
  shows "\<exists>kvs r. s = YMap kvs \<and> map_of kvs (YStr ''uses'') = Some r"
proof (cases s)
  case (YMap kvs)
  with assms have "YStr ''uses'' \<in> set (map fst kvs)"
    by (simp add: step_uses_action_def split: if_splits)
  then have "map_of kvs (YStr ''uses'') \<noteq> None"
    by (simp add: map_of_eq_None_iff)
  with YMap show ?thesis by auto
next
  case (YList xs)
  with assms show ?thesis by (simp add: step_uses_action_def split: if_splits)
next
  case (YStr t)
  with assms show ?thesis by (simp add: step_uses_action_def split: if_splits)
qed (use assms in \<open>simp_all add: step_uses_action_def\<close>)

lemma make_instance_selected:
  assumes "step_uses_action a s = Inr True"
  shows "make_instance jn k s = Inr (instance_of jn (k, s))"
proof -
  from uses_is_map[OF assms] obtain kvs r where
    s: "s = YMap kvs" and r: "map_of kvs (YStr ''uses'') = Some r" by blast
  show ?thesis
    unfolding make_instance_def instance_of_def spec_display_name_def s
    by (simp add: r split: option.splits)
qed

lemma steps_loop_char:
  "steps_loop a jn i ss acc = Inr r \<Longrightarrow> r = acc @ map (instance_of jn) (selected a i ss)"
proof (induction ss arbitrary: i acc)
  case Nil
  then show ?case by (simp add: selected_def)
next
  case (Cons s ss)
  show ?case
  proof (cases "step_uses_action a s")
    case (Inl e)
    with Cons.prems show ?thesis by simp
  next
    case (Inr b)
    show ?thesis
    proof (cases b)
      case True
      with Inr have sel: "step_uses_action a s = Inr True" by simp
      from Cons.prems sel have "steps_loop a jn (i + 1) ss (acc @ [instance_of jn (i, s)]) = Inr r"
        by (simp add: make_instance_selected)
      from Cons.IH[OF this] sel show ?thesis by (simp add: selected_def)
    next
      case False
      with Inr have nsel: "step_uses_action a s = Inr False" by simp
      from Cons.prems nsel have "steps_loop a jn (i + 1) ss acc = Inr r" by simp
      from Cons.IH[OF this] nsel show ?thesis by (simp add: selected_def)
    qed
  qed
qed

lemma py_in_field: "py_in k v = Inr True \<Longrightarrow> subscript v k = Inr x \<Longrightarrow> field v k = Some x"
  by (cases v) (auto split: option.splits)

lemma py_in_no_field: "py_in k v = Inr False \<Longrightarrow> field v k = None"
  by (cases v) (auto simp: map_of_eq_None_iff)

lemma jobs_loop_char:
  "jobs_loop a js acc = Inr r \<Longrightarrow> r = acc @ concat (map (job_instances a) js)"
proof (induction js arbitrary: acc)
  case Nil
  then show ?case by simp
next
  case (Cons j js)
  obtain jn jc where j: "j = (jn, jc)" by (cases j)
  show ?case
  proof (cases "py_in ''steps'' jc")
    case (Inl e)
    with Cons.prems j show ?thesis by simp
  next
    case (Inr b)
    show ?thesis
    proof (cases b)
      case False
      with Inr have "field jc ''steps'' = None" by (simp add: py_in_no_field)
      then have e: "job_instances a j = []" by (simp add: job_instances_def steps_seq_def j selected_def)
      from Cons.prems Inr False j have "jobs_loop a js acc = Inr r" by simp
      from Cons.IH[OF this] e show ?thesis by simp
    next
      case True
      with Inr have inT: "py_in ''steps'' jc = Inr True" by simp
      with Cons.prems j obtain ss steps acc' where
        s1: "subscript jc ''steps'' = Inr ss" and s2: "py_iter ss = Inr steps"
        and s3: "steps_loop a jn 0 steps acc = Inr acc'" and s4: "jobs_loop a js acc' = Inr r"
        by (auto split: sum.splits)
      from py_in_field[OF inT s1] s2 have "steps_seq jc = steps" by (simp add: steps_seq_def)
      with steps_loop_char[OF s3] have "acc' = acc @ job_instances a j" by (simp add: job_instances_def j)
      with Cons.IH[OF s4] show ?thesis by simp
    qed
  qed
qed

lemma extract_instances_char:
  assumes "extract_instances a doc = Inr r"
  shows "r = concat (map (job_instances a) (jobs_seq doc))"
proof (cases "truthy doc")
  case False
  then have "field doc ''jobs'' = None" by (cases doc) auto
  with assms False show ?thesis by (simp add: extract_instances_def jobs_seq_def)
next
  case True
  show ?thesis
  proof (cases "py_in ''jobs'' doc")
    case (Inl e)
    with assms True show ?thesis by (simp add: extract_instances_def)
  next
    case (Inr b)
    show ?thesis
    proof (cases b)
      case False
      with Inr have "field doc ''jobs'' = None" by (simp add: py_in_no_field)
      with assms True Inr False show ?thesis by (simp add: extract_instances_def jobs_seq_def)
    next
      case True
      with Inr have inT: "py_in ''jobs'' doc = Inr True" by simp
      with assms \<open>truthy doc\<close> obtain js kvs where
        s1: "subscript doc ''jobs'' = Inr js" and s2: "py_items js = Inr kvs"
        and s3: "jobs_loop a kvs [] = Inr r"
        by (auto simp: extract_instances_def split: sum.splits)
      from py_in_field[OF inT s1] s2 have "jobs_seq doc = kvs" by (simp add: jobs_seq_def)
      with jobs_loop_char[OF s3] show ?thesis by simp
    qed
  qed
qed

lemma step_shaped_uses:
  assumes "step_shaped s"
  shows "step_uses_action a s = Inr (spec_ref_matches a s)"
proof -
  from assms obtain kvs where s: "s = YMap kvs" by (cases s) auto
  show ?thesis
  proof (cases "map_of kvs (YStr ''uses'')")
    case None
    then have "YStr ''uses'' \<notin> set (map fst kvs)" by (simp add: map_of_eq_None_iff)
    with None show ?thesis by (simp add: s step_uses_action_def spec_ref_matches_def)
  next
    case (Some r)
    then have "YStr ''uses'' \<in> set (map fst kvs)" by (metis map_of_eq_None_iff option.distinct(1) set_map)
    moreover from assms Some obtain t where "r = YStr t" by (cases r) (auto simp: s)
    ultimately show ?thesis using Some by (simp add: s step_uses_action_def spec_ref_matches_def)
  qed
qed

lemma steps_loop_shaped:
  "list_all step_shaped ss \<Longrightarrow> \<exists>r. steps_loop a jn i ss acc = Inr r"
proof (induction ss arbitrary: i acc)
  case Nil
  show ?case by simp
next
  case (Cons s ss)
  then have sh: "step_shaped s" and rest: "list_all step_shaped ss" by simp_all
  show ?case
  proof (cases "spec_ref_matches a s")
    case True
    with sh have "step_uses_action a s = Inr True" by (simp add: step_shaped_uses)
    then show ?thesis using Cons.IH[OF rest] by (simp add: make_instance_selected)
  next
    case False
    with sh have "step_uses_action a s = Inr False" by (simp add: step_shaped_uses)
    then show ?thesis using Cons.IH[OF rest] by simp
  qed
qed

lemma jobs_loop_shaped:
  "list_all (\<lambda>j. job_shaped (snd j)) js \<Longrightarrow> \<exists>r. jobs_loop a js acc = Inr r"
proof (induction js arbitrary: acc)
  case Nil
  show ?case by simp
next
  case (Cons j js)
  obtain jn jc where j: "j = (jn, jc)" by (cases j)
  from Cons.prems j have sh: "job_shaped jc" and rest: "list_all (\<lambda>j. job_shaped (snd j)) js"
    by simp_all
  from sh obtain kvs where jc: "jc = YMap kvs" by (cases jc) auto
  show ?case
  proof (cases "map_of kvs (YStr ''steps'')")
    case None
    then have "YStr ''steps'' \<notin> set (map fst kvs)" by (simp add: map_of_eq_None_iff)
    then show ?thesis using Cons.IH[OF rest] by (simp add: j jc)
  next
    case (Some ss)
    then have m: "YStr ''steps'' \<in> set (map fst kvs)"
      by (metis map_of_eq_None_iff option.distinct(1) set_map)
    from sh Some obtain xs where ss: "ss = YList xs" and xs: "list_all step_shaped xs"
      by (cases ss) (auto simp: jc)
    from steps_loop_shaped[OF xs] obtain acc' where "steps_loop a jn 0 xs acc = Inr acc'" by blast
    then show ?thesis using Cons.IH[OF rest] m Some ss by (simp add: j jc)
  qed
qed

lemma extract_instances_shaped:
  assumes "doc_shaped doc"
  shows "\<exists>r. extract_instances a doc = Inr r"
proof (cases doc)
  case (YMap kvs)
  show ?thesis
  proof (cases "map_of kvs (YStr ''jobs'')")
    case None
    then have "YStr ''jobs'' \<notin> set (map fst kvs)" by (simp add: map_of_eq_None_iff)
    then show ?thesis by (simp add: YMap extract_instances_def)
  next
    case (Some js)
    then have m: "YStr ''jobs'' \<in> set (map fst kvs)"
      by (metis map_of_eq_None_iff option.distinct(1) set_map)
    from assms Some obtain jkvs where js: "js = YMap jkvs"
      and sh: "list_all (\<lambda>j. job_shaped (snd j)) jkvs"
      by (cases js) (auto simp: YMap)
    from jobs_loop_shaped[OF sh] obtain r where "jobs_loop a jkvs [] = Inr r" by blast
    then show ?thesis using m Some js by (simp add: YMap extract_instances_def)
  qed
qed (use assms in \<open>simp_all add: extract_instances_def\<close>)

lemma filter_enumerate_snd:
  "map snd (filter (\<lambda>ks. P (snd ks)) (enumerate i xs)) = filter P xs"
  by (induction xs arbitrary: i) auto

lemma steps_seq_shaped:
  assumes "job_shaped jc"
  shows "list_all step_shaped (steps_seq jc)"
proof -
  from assms obtain kvs where jc: "jc = YMap kvs" by (cases jc) auto
  show ?thesis
  proof (cases "map_of kvs (YStr ''steps'')")
    case None
    then show ?thesis by (simp add: jc steps_seq_def)
  next
    case (Some ss)
    with assms obtain xs where "ss = YList xs" "list_all step_shaped xs"
      by (cases ss) (auto simp: jc)
    with Some show ?thesis by (simp add: jc steps_seq_def)
  qed
qed

lemma jobs_seq_shaped:
  assumes "doc_shaped doc"
  shows "list_all (\<lambda>j. job_shaped (snd j)) (jobs_seq doc)"
proof (cases doc)
  case (YMap kvs)
  show ?thesis
  proof (cases "map_of kvs (YStr ''jobs'')")
    case None
    then show ?thesis by (simp add: YMap jobs_seq_def)
  next
    case (Some js)
    with assms obtain jkvs where "js = YMap jkvs" "list_all (\<lambda>j. job_shaped (snd j)) jkvs"
      by (cases js) (auto simp: YMap)
    with Some show ?thesis by (simp add: YMap jobs_seq_def)
  qed
qed (use assms in \<open>simp_all add: jobs_seq_def\<close>)

lemma selected_shaped:
  assumes "list_all step_shaped ss"
  shows "selected a i ss = filter (\<lambda>ks. spec_ref_matches a (snd ks)) (enumerate i ss)"
proof -
  have "\<forall>ks \<in> set (enumerate i ss). step_shaped (snd ks)"
    using assms by (auto simp: list_all_iff in_set_enumerate_eq)
  then show ?thesis
    unfolding selected_def
    by (intro filter_cong refl) (auto simp: step_shaped_uses)
qed

lemma instance_of_proj:
  "(job (instance_of jn ks), action_ref (instance_of jn ks)) = (jn, spec_reference (snd ks))"
  by (simp add: instance_of_def spec_reference_def)

lemma job_instances_shaped_proj:
  assumes "job_shaped (snd j)"
  shows "map (\<lambda>i. (job i, action_ref i)) (job_instances a j) =
         map (\<lambda>s. (fst j, spec_reference s)) (filter (spec_ref_matches a) (steps_seq (snd j)))"
proof -
  have "map (\<lambda>i. (job i, action_ref i)) (job_instances a j) =
        map (\<lambda>ks. (fst j, spec_reference (snd ks))) (selected a 0 (steps_seq (snd j)))"
    by (simp add: job_instances_def instance_of_proj o_def)
  also have "\<dots> = map (\<lambda>s. (fst j, spec_reference s))
       (map snd (filter (\<lambda>ks. spec_ref_matches a (snd ks)) (enumerate 0 (steps_seq (snd j)))))"
    by (simp add: selected_shaped[OF steps_seq_shaped[OF assms]] o_def)
  finally show ?thesis by (simp only: filter_enumerate_snd)
qed

lemma selected_ref_contains:
  assumes "step_shaped (snd ks)" "step_uses_action a (snd ks) = Inr True"
  shows "ref_contains a (instance_of jn ks)"
proof -
  from assms have "spec_ref_matches a (snd ks)" by (simp add: step_shaped_uses)
  then show ?thesis
    by (auto simp: spec_ref_matches_def ref_contains_def instance_of_def split: option.splits yaml.splits)
qed

lemma job_instances_ref_contains:
  assumes "job_shaped (snd j)"
  shows "list_all (ref_contains a) (job_instances a j)"
proof -
  have "\<forall>ks \<in> set (enumerate 0 (steps_seq (snd j))). step_shaped (snd ks)"
    using steps_seq_shaped[OF assms] by (auto simp: list_all_iff in_set_enumerate_eq)
  then show ?thesis
    by (auto simp: job_instances_def selected_def list_all_iff intro: selected_ref_contains)
qed

text \<open>
  Claim C1, as amended. For a text that contains the target and parses to a document of the
  documented shape (absent, or a mapping whose \<open>jobs\<close>, when present, is a mapping of
  mappings, whose \<open>steps\<close>, when present, are sequences of mappings, whose \<open>uses\<close>, when
  present, is a string), the instances returned are, job by job and step by step in document
  order, exactly the steps that have a reference field whose value contains the target as a
  substring; hence every returned reference is a string containing the target. The target
  \<open>a/b\<close> matches \<open>a/b@v2\<close>, \<open>a/b-suffix@v1\<close> and \<open>x/a/b@v1\<close>; a step with no reference field,
  or with a reference that does not mention the target, does not match.
\<close>

theorem analyzer_selects_matching_steps:
  assumes "str_contains a content" and "safe_load content = Inr doc" and "doc_shaped doc"
  shows "map (\<lambda>i. (job i, action_ref i)) (fst (analyze_workflow_content safe_load content a fi)) =
           concat (map (\<lambda>j. map (\<lambda>s. (fst j, spec_reference s))
                               (filter (spec_ref_matches a) (steps_seq (snd j)))) (jobs_seq doc))
         \<and> list_all (ref_contains a) (fst (analyze_workflow_content safe_load content a fi))
         \<and> spec_ref_matches ''a/b'' (YMap [(YStr ''uses'', YStr ''a/b@v2'')])
         \<and> spec_ref_matches ''a/b'' (YMap [(YStr ''uses'', YStr ''a/b-suffix@v1'')])
         \<and> spec_ref_matches ''a/b'' (YMap [(YStr ''uses'', YStr ''x/a/b@v1'')])
         \<and> \<not> spec_ref_matches ''a/b'' (YMap [(YStr ''run'', YStr ''a/b'')])
         \<and> \<not> spec_ref_matches ''a/b'' (YMap [(YStr ''uses'', YStr ''a/c@v1'')])"
proof -
  from extract_instances_shaped[OF assms(3)] obtain r where r: "extract_instances a doc = Inr r"
    by blast
  have res: "fst (analyze_workflow_content safe_load content a fi) = r"
    using assms(1,2) r by (simp add: analyze_workflow_content_def)
  have rc: "r = concat (map (job_instances a) (jobs_seq doc))"
    by (rule extract_instances_char[OF r])
  have sh: "\<forall>j \<in> set (jobs_seq doc). job_shaped (snd j)"
    using jobs_seq_shaped[OF assms(3)] by (simp add: list_all_iff)
  have "map (\<lambda>i. (job i, action_ref i)) r =
        concat (map (\<lambda>j. map (\<lambda>i. (job i, action_ref i)) (job_instances a j)) (jobs_seq doc))"
    by (simp add: rc map_concat o_def)
  also have "\<dots> = concat (map (\<lambda>j. map (\<lambda>s. (fst j, spec_reference s))
                               (filter (spec_ref_matches a) (steps_seq (snd j)))) (jobs_seq doc))"
    using sh by (intro arg_cong[where f = concat] map_cong refl) (simp add: job_instances_shaped_proj)
  finally have one: "map (\<lambda>i. (job i, action_ref i)) r =
        concat (map (\<lambda>j. map (\<lambda>s. (fst j, spec_reference s))
                               (filter (spec_ref_matches a) (steps_seq (snd j)))) (jobs_seq doc))" .
  have two: "list_all (ref_contains a) r"
    using sh job_instances_ref_contains by (auto simp: rc list_all_iff)
  have three: "spec_ref_matches ''a/b'' (YMap [(YStr ''uses'', YStr ''a/b@v2'')])"
     "spec_ref_matches ''a/b'' (YMap [(YStr ''uses'', YStr ''a/b-suffix@v1'')])"
     "spec_ref_matches ''a/b'' (YMap [(YStr ''uses'', YStr ''x/a/b@v1'')])"
     "\<not> spec_ref_matches ''a/b'' (YMap [(YStr ''run'', YStr ''a/b'')])"
     "\<not> spec_ref_matches ''a/b'' (YMap [(YStr ''uses'', YStr ''a/c@v1'')])"
    by (simp_all add: spec_ref_matches_def)
  from one two three show ?thesis by (simp only: res simp_thms)
qed

text \<open>The theorem at a concrete input.\<close>

theorem analyzer_selects_matching_steps_witness:
  "map (\<lambda>i. (job i, action_ref i))
     (fst (analyze_workflow_content
        (\<lambda>t. Inr (YMap [(YStr ''jobs'', YMap [(YStr ''build'',
           YMap [(YStr ''steps'', YList [YMap [(YStr ''run'', YStr ''make'')],
                                        YMap [(YStr ''uses'', YStr ''x/a/b@v1'')]])])])]))
        ''jobs: {build: {steps: [{run: make}, {uses: x/a/b@v1}]}}'' ''a/b''
        \<lparr>fi_repo = ''o/r'', fi_path = ''.github/workflows/ci.yml'', fi_name = ''ci.yml''\<rparr>))
   = [(YStr ''build'', YStr ''x/a/b@v1'')]"
proof -
  have c: "str_contains ''a/b'' ''jobs: {build: {steps: [{run: make}, {uses: x/a/b@v1}]}}''"
    by simp
  have d: "doc_shaped (YMap [(YStr ''jobs'', YMap [(YStr ''build'',
           YMap [(YStr ''steps'', YList [YMap [(YStr ''run'', YStr ''make'')],
                                        YMap [(YStr ''uses'', YStr ''x/a/b@v1'')]])])])])"
    by simp
  show ?thesis
    using analyzer_selects_matching_steps[OF c refl d,
      of "\<lparr>fi_repo = ''o/r'', fi_path = ''.github/workflows/ci.yml'', fi_name = ''ci.yml''\<rparr>"]
    by (simp add: jobs_seq_def steps_seq_def spec_ref_matches_def spec_reference_def)
qed

text \<open>
  Claim C1 as stated fails twice. A step that matches yields no instance when a later job has
  a null \<open>steps\<close> field (the iteration raises and the handler returns the empty list); and a
  step whose \<open>uses\<close> is the list \<open>[a/b]\<close> yields an instance, by element membership, whose
  reference is not a string containing the target.
\<close>

theorem analyzer_selects_matching_steps_counterexample:
  "spec_ref_matches ''a/b'' (YMap [(YStr ''uses'', YStr ''a/b@v1'')])
   \<and> fst (analyze_workflow_content
        (\<lambda>t. Inr (YMap [(YStr ''jobs'', YMap [
           (YStr ''build'', YMap [(YStr ''steps'', YList [YMap [(YStr ''uses'', YStr ''a/b@v1'')]])]),
           (YStr ''deploy'', YMap [(YStr ''steps'', YNull)])])]))
        ''jobs: {build: {steps: [{uses: a/b@v1}]}, deploy: {steps: }}'' ''a/b''
        \<lparr>fi_repo = ''o/r'', fi_path = ''.github/workflows/ci.yml'', fi_name = ''ci.yml''\<rparr>) = []
   \<and> \<not> spec_ref_matches ''a/b'' (YMap [(YStr ''uses'', YList [YStr ''a/b''])])
   \<and> map action_ref (fst (analyze_workflow_content
        (\<lambda>t. Inr (YMap [(YStr ''jobs'', YMap [
           (YStr ''build'', YMap [(YStr ''steps'', YList [YMap [(YStr ''uses'', YList [YStr ''a/b''])]])])])]))
        ''jobs: {build: {steps: [{uses: [a/b]}]}}'' ''a/b''
        \<lparr>fi_repo = ''o/r'', fi_path = ''.github/workflows/ci.yml'', fi_name = ''ci.yml''\<rparr>))
     = [YList [YStr ''a/b'']]"
  by (simp add: spec_ref_matches_def analyze_workflow_content_def extract_instances_def
      step_uses_action_def make_instance_def)

text \<open>
  Claim C5, as amended. For a text that contains the target: when the parser raises, the
  analyzer returns the empty list after one diagnostic naming the path of the file; when the
  parser returns an empty or absent document, the analyzer returns the empty list and reports
  nothing.
\<close>

theorem parse_failure_contained:
  assumes "str_contains a content"
  shows "(safe_load content = Inl e \<longrightarrow>
            analyze_workflow_content safe_load content a fi =
              ([], [YamlLoad content, Print (ParseErrorMsg (fi_path fi) e)]))
         \<and> (safe_load content = Inr doc \<and> \<not> truthy doc \<longrightarrow>
            analyze_workflow_content safe_load content a fi = ([], [YamlLoad content]))"
  using assms by (simp add: analyze_workflow_content_def extract_instances_def)

text \<open>The theorem at a concrete input.\<close>

theorem parse_failure_contained_witness:
  "analyze_workflow_content (\<lambda>t. Inl YAMLError) ''uses: [a/b'' ''a/b''
       \<lparr>fi_repo = ''o/r'', fi_path = ''.github/workflows/ci.yml'', fi_name = ''ci.yml''\<rparr> =
     ([], [YamlLoad ''uses: [a/b'', Print (ParseErrorMsg ''.github/workflows/ci.yml'' YAMLError)])
   \<and> analyze_workflow_content (\<lambda>t. Inr YNull) ''# a/b'' ''a/b''
       \<lparr>fi_repo = ''o/r'', fi_path = ''.github/workflows/ci.yml'', fi_name = ''ci.yml''\<rparr> =
     ([], [YamlLoad ''# a/b''])"
proof -
  have c1: "str_contains ''a/b'' ''uses: [a/b''" by simp
  have c2: "str_contains ''a/b'' ''# a/b''" by simp
  show ?thesis
    using parse_failure_contained[OF c1, of "\<lambda>t. Inl YAMLError" YAMLError
        "\<lparr>fi_repo = ''o/r'', fi_path = ''.github/workflows/ci.yml'', fi_name = ''ci.yml''\<rparr>" YNull]
      parse_failure_contained[OF c2, of "\<lambda>t. Inr YNull" YAMLError
        "\<lparr>fi_repo = ''o/r'', fi_path = ''.github/workflows/ci.yml'', fi_name = ''ci.yml''\<rparr>" YNull]
    by simp
qed

text \<open>
  Claim C5 as stated fails on a text that contains the target and parses to \<^verbatim>\<open>None\<close> (a
  comment alone): the only effect is the parser call, and no diagnostic is reported.
\<close>

theorem empty_document_diagnostic_counterexample:
  "str_contains ''a/b'' ''# a/b''
   \<and> \<not> truthy YNull
   \<and> snd (analyze_workflow_content (\<lambda>t. Inr YNull) ''# a/b'' ''a/b''
       \<lparr>fi_repo = ''o/r'', fi_path = ''.github/workflows/ci.yml'', fi_name = ''ci.yml''\<rparr>)
     = [YamlLoad ''# a/b'']"
  by (simp add: analyze_workflow_content_def extract_instances_def)

text \<open>
  Claim C6. For a text in which the target does not occur, the analyzer returns the empty
  list with no effect at all: the parser is not called, whatever it would have answered, and
  nothing is reported.
\<close>

theorem fast_path_skips_parser:
  assumes "\<not> str_contains a content"
  shows "analyze_workflow_content safe_load content a fi = ([], [])"
  using assms by (simp add: analyze_workflow_content_def)

text \<open>The theorem at a concrete input.\<close>

theorem fast_path_skips_parser_witness:
  "analyze_workflow_content (\<lambda>t. Inl YAMLError) ''jobs: [unclosed'' ''a/b''
       \<lparr>fi_repo = ''o/r'', fi_path = ''.github/workflows/ci.yml'', fi_name = ''ci.yml''\<rparr> = ([], [])"
proof -
  have c: "\<not> str_contains ''a/b'' ''jobs: [unclosed''" by simp
  show ?thesis by (rule fast_path_skips_parser[OF c])
qed

text \<open>
  Claim C9, as amended. For a text that contains the target and parses to a document: when
  the analysis of the document completes (no node makes the traversal raise), the step names
  of the instances returned are, job by job in document order, those of the steps that passed
  the test of line 76, each with its zero-based index \<open>k\<close> in the step sequence of its job:
  the value of the \<open>name\<close> field when the step has one, and \<open>Step\<close> followed by \<open>k + 1\<close> in
  decimal otherwise. And in every case, each instance returned stands for a step that passed
  the test, at some index \<open>k\<close> of the step sequence of its job, and carries the name this rule
  gives that step.
\<close>

theorem step_name_synthesized:
  assumes "str_contains a content" and "safe_load content = Inr doc"
  shows "(\<forall>insts. extract_instances a doc = Inr insts \<longrightarrow>
            map step_name (fst (analyze_workflow_content safe_load content a fi)) =
              concat (map (\<lambda>j. map (\<lambda>ks. case field (snd ks) ''name'' of
                                             Some v \<Rightarrow> v
                                           | None \<Rightarrow> YStr (''Step '' @ str_of_nat (fst ks + 1)))
                                  (filter (\<lambda>ks. step_uses_action a (snd ks) = Inr True)
                                     (enumerate 0 (steps_seq (snd j))))) (jobs_seq doc)))
         \<and> (\<forall>inst \<in> set (fst (analyze_workflow_content safe_load content a fi)).
              \<exists>j \<in> set (jobs_seq doc). \<exists>k < length (steps_seq (snd j)).
                step_uses_action a (steps_seq (snd j) ! k) = Inr True
                \<and> job inst = fst j
                \<and> step_name inst =
                    (case field (steps_seq (snd j) ! k) ''name'' of
                       Some v \<Rightarrow> v
                     | None \<Rightarrow> YStr (''Step '' @ str_of_nat (k + 1))))"
proof -
  let ?R = "fst (analyze_workflow_content safe_load content a fi)"
  have sel: "selected a 0 ss = filter (\<lambda>ks. step_uses_action a (snd ks) = Inr True) (enumerate 0 ss)" for ss
    by (simp add: selected_def)
  have one: "map step_name ?R =
              concat (map (\<lambda>j. map (\<lambda>ks. case field (snd ks) ''name'' of
                                             Some v \<Rightarrow> v
                                           | None \<Rightarrow> YStr (''Step '' @ str_of_nat (fst ks + 1)))
                                  (filter (\<lambda>ks. step_uses_action a (snd ks) = Inr True)
                                     (enumerate 0 (steps_seq (snd j))))) (jobs_seq doc))"
    if ex: "extract_instances a doc = Inr insts" for insts
  proof -
    have res: "?R = insts" using assms ex by (simp add: analyze_workflow_content_def)
    have "map step_name insts =
          concat (map (\<lambda>j. map step_name (job_instances a j)) (jobs_seq doc))"
      by (simp add: extract_instances_char[OF ex] map_concat o_def)
    also have "\<dots> = concat (map (\<lambda>j. map (\<lambda>ks. spec_display_name (fst ks) (snd ks))
                                 (selected a 0 (steps_seq (snd j)))) (jobs_seq doc))"
      by (simp add: job_instances_def instance_of_def o_def)
    finally show ?thesis by (simp add: res sel spec_display_name_def)
  qed
  have two: "\<exists>j \<in> set (jobs_seq doc). \<exists>k < length (steps_seq (snd j)).
                step_uses_action a (steps_seq (snd j) ! k) = Inr True
                \<and> job inst = fst j
                \<and> step_name inst =
                    (case field (steps_seq (snd j) ! k) ''name'' of
                       Some v \<Rightarrow> v
                     | None \<Rightarrow> YStr (''Step '' @ str_of_nat (k + 1)))"
    if mem: "inst \<in> set ?R" for inst
  proof (cases "extract_instances a doc")
    case (Inl e)
    with assms have "?R = []" by (simp add: analyze_workflow_content_def)
    with mem show ?thesis by simp
  next
    case (Inr r)
    with assms have "?R = r" by (simp add: analyze_workflow_content_def)
    with mem extract_instances_char[OF Inr]
    have "inst \<in> set (concat (map (job_instances a) (jobs_seq doc)))" by simp
    then obtain j where j: "j \<in> set (jobs_seq doc)" and ij: "inst \<in> set (job_instances a j)"
      by auto
    from ij obtain ks where ks: "ks \<in> set (selected a 0 (steps_seq (snd j)))"
      and inst: "inst = instance_of (fst j) ks"
      by (auto simp: job_instances_def)
    from ks have en: "ks \<in> set (enumerate 0 (steps_seq (snd j)))"
      and pass: "step_uses_action a (snd ks) = Inr True"
      by (simp_all add: selected_def)
    from en have k: "fst ks < length (steps_seq (snd j))"
      and nth: "steps_seq (snd j) ! fst ks = snd ks"
      by (simp_all add: in_set_enumerate_eq)
    have "job inst = fst j" by (simp add: inst instance_of_def)
    moreover have "step_name inst =
                    (case field (steps_seq (snd j) ! fst ks) ''name'' of
                       Some v \<Rightarrow> v
                     | None \<Rightarrow> YStr (''Step '' @ str_of_nat (fst ks + 1)))"
      by (simp add: inst instance_of_def spec_display_name_def nth)
    ultimately show ?thesis
      using k pass nth by (intro bexI[OF _ j] exI[of _ "fst ks"]) simp
  qed
  from one two show ?thesis by blast
qed

text \<open>The theorem at a concrete input.\<close>

theorem step_name_synthesized_witness:
  "map step_name
     (fst (analyze_workflow_content
        (\<lambda>t. Inr (YMap [(YStr ''jobs'', YMap [(YStr ''build'',
           YMap [(YStr ''steps'', YList [YMap [(YStr ''run'', YStr ''make'')],
                                        YMap [(YStr ''uses'', YStr ''a/b@v1'')],
                                        YMap [(YStr ''name'', YStr ''Again''), (YStr ''uses'', YStr ''a/b@v2'')]])])])]))
        ''jobs: {build: {steps: [{run: make}, {uses: a/b@v1}, {name: Again, uses: a/b@v2}]}}'' ''a/b''
        \<lparr>fi_repo = ''o/r'', fi_path = ''.github/workflows/ci.yml'', fi_name = ''ci.yml''\<rparr>))
   = [YStr ''Step 2'', YStr ''Again'']"
proof -
  have c: "str_contains ''a/b'' ''jobs: {build: {steps: [{run: make}, {uses: a/b@v1}, {name: Again, uses: a/b@v2}]}}''"
    by simp
  have e: "extract_instances ''a/b'' (YMap [(YStr ''jobs'', YMap [(YStr ''build'',
           YMap [(YStr ''steps'', YList [YMap [(YStr ''run'', YStr ''make'')],
                                        YMap [(YStr ''uses'', YStr ''a/b@v1'')],
                                        YMap [(YStr ''name'', YStr ''Again''), (YStr ''uses'', YStr ''a/b@v2'')]])])])])
        = Inr [\<lparr>job = YStr ''build'', step_name = YStr ''Step 2'', action_ref = YStr ''a/b@v1'', inputs = YMap []\<rparr>,
               \<lparr>job = YStr ''build'', step_name = YStr ''Again'', action_ref = YStr ''a/b@v2'', inputs = YMap []\<rparr>]"
    by (simp add: extract_instances_def step_uses_action_def make_instance_def str_of_nat_digit digit_char_def)
  show ?thesis
    using step_name_synthesized[OF c refl,
      where fi = "\<lparr>fi_repo = ''o/r'', fi_path = ''.github/workflows/ci.yml'', fi_name = ''ci.yml''\<rparr>",
      THEN conjunct1, rule_format, OF e]
    by (simp add: jobs_seq_def steps_seq_def step_uses_action_def str_of_nat_digit digit_char_def)
qed

text \<open>
  Claim C9 as stated fails on a document whose first step matches and has no name and whose
  second step is null: the test of line 76 raises on the null step, the handler returns the
  empty list, and no instance named \<open>Step 1\<close> is returned for the matching step.
\<close>

theorem step_name_synthesized_counterexample:
  "step_uses_action ''a/b'' (YMap [(YStr ''uses'', YStr ''a/b@v1'')]) = Inr True
   \<and> field (YMap [(YStr ''uses'', YStr ''a/b@v1'')]) ''name'' = None
   \<and> steps_seq (YMap [(YStr ''steps'', YList [YMap [(YStr ''uses'', YStr ''a/b@v1'')], YNull])]) ! 0
       = YMap [(YStr ''uses'', YStr ''a/b@v1'')]
   \<and> fst (analyze_workflow_content
        (\<lambda>t. Inr (YMap [(YStr ''jobs'', YMap [(YStr ''build'',
           YMap [(YStr ''steps'', YList [YMap [(YStr ''uses'', YStr ''a/b@v1'')], YNull])])])]))
        ''jobs: {build: {steps: [{uses: a/b@v1}, null]}}'' ''a/b''
        \<lparr>fi_repo = ''o/r'', fi_path = ''.github/workflows/ci.yml'', fi_name = ''ci.yml''\<rparr>) = []"
  by (simp add: analyze_workflow_content_def extract_instances_def step_uses_action_def
      make_instance_def steps_seq_def str_of_nat_digit digit_char_def)

text \<open>
  Claim C10. There is a document whose text contains the target, whose first job holds a
  matching step (alone, the inner loop returns its instance) and whose second job has a null
  body: the membership test on the null body raises \<open>TypeError\<close>, and the analyzer returns
  the empty list for the whole file after the diagnostic of its handler.
\<close>

theorem non_mapping_job_discards_instances:
  "steps_loop ''a/b'' (YStr ''build'') 0 [YMap [(YStr ''uses'', YStr ''a/b@v1'')]] [] =
     Inr [\<lparr>job = YStr ''build'', step_name = YStr ''Step 1'', action_ref = YStr ''a/b@v1'',
           inputs = YMap []\<rparr>]
   \<and> py_in ''steps'' YNull = Inl TypeError
   \<and> analyze_workflow_content
        (\<lambda>t. Inr (YMap [(YStr ''jobs'', YMap [
           (YStr ''build'', YMap [(YStr ''steps'', YList [YMap [(YStr ''uses'', YStr ''a/b@v1'')]])]),
           (YStr ''broken'', YNull)])]))
        ''jobs: {build: {steps: [{uses: a/b@v1}]}, broken: null}'' ''a/b''
        \<lparr>fi_repo = ''o/r'', fi_path = ''.github/workflows/ci.yml'', fi_name = ''ci.yml''\<rparr>
     = ([], [YamlLoad ''jobs: {build: {steps: [{uses: a/b@v1}]}, broken: null}'',
             Print (ParseErrorMsg ''.github/workflows/ci.yml'' TypeError)])"
  by (simp add: analyze_workflow_content_def extract_instances_def
      step_uses_action_def make_instance_def str_of_nat_digit digit_char_def)

section \<open>Properties of the search executor\<close>

lemma lower_example: "lower ''API rate limit exceeded'' = ''api rate limit exceeded''"
  by code_simp

text \<open>
  Claim C4, at the response the search interface sends when the rate limit is exceeded: status
  403, a message that mentions the rate limit, and the reset header. The body indicates the
  rate limit, yet \<^verbatim>\<open>raise_for_status\<close> raises before line 33 is reached: the function
  reports the HTTP error and the response text and returns the empty list, and no wait time
  is computed or reported. The same body under status 200 reaches line 33 and the wait of
  60 seconds is reported.
\<close>

theorem rate_limit_check_unreachable_on_error_status:
  "rate_limited \<lparr>sb_message = Some ''API rate limit exceeded'', sb_items = None\<rparr>
   \<and> search_for_action
       \<lparr>url_quote = (\<lambda>s. s),
        search_get = (\<lambda>u t. Inr \<lparr>r_status = 403, r_text = ''API rate limit exceeded'',
                                  r_reset = Some ''1700000060'',
                                  r_json = Inr \<lparr>sb_message = Some ''API rate limit exceeded'',
                                                sb_items = None\<rparr>\<rparr>),
        content_get = (\<lambda>u t. Inl RequestException),
        yaml_safe_load = (\<lambda>s. Inl YAMLError),
        b64decode_utf8 = (\<lambda>s. Inr s),
        int_of_str = (\<lambda>s. Inr 1700000060),
        now = 1700000000,
        fs_open = (\<lambda>p. None),
        fs_write = (\<lambda>p k. None),
        fs_close = (\<lambda>p. None)\<rparr>
       ''acme'' ''a/b'' ''tok'' False
     = (Inr [],
        [Print (SearchingMsg ''acme''),
         HttpGet ''https://api.github.com/search/code?q=org:acme path:.github/workflows/ a/b&per_page=100'',
         Print (SearchErrorMsg (HTTPError 403 ''API rate limit exceeded'')),
         Print (SearchResponseMsg ''API rate limit exceeded'')])
   \<and> search_for_action
       \<lparr>url_quote = (\<lambda>s. s),
        search_get = (\<lambda>u t. Inr \<lparr>r_status = 200, r_text = ''API rate limit exceeded'',
                                  r_reset = Some ''1700000060'',
                                  r_json = Inr \<lparr>sb_message = Some ''API rate limit exceeded'',
                                                sb_items = None\<rparr>\<rparr>),
        content_get = (\<lambda>u t. Inl RequestException),
        yaml_safe_load = (\<lambda>s. Inl YAMLError),
        b64decode_utf8 = (\<lambda>s. Inr s),
        int_of_str = (\<lambda>s. Inr 1700000060),
        now = 1700000000,
        fs_open = (\<lambda>p. None),
        fs_write = (\<lambda>p k. None),
        fs_close = (\<lambda>p. None)\<rparr>
       ''acme'' ''a/b'' ''tok'' False
     = (Inr [],
        [Print (SearchingMsg ''acme''),
         HttpGet ''https://api.github.com/search/code?q=org:acme path:.github/workflows/ a/b&per_page=100'',
         Print (RateLimitMsg 60)])"
  by (simp add: search_for_action_def search_try_def search_url_def search_query_def
      raise_for_status_def rate_limited_def lower_example)

section \<open>Properties of the scan loop\<close>

text \<open>
  Claim C3, at two candidates of which the first cannot be fetched (status 404) and the
  second is fetched and holds no usage: the handler of line 154 is entered from the fetch, so
  the pause of line 152 is skipped and the next candidate is announced right after the
  diagnostic; the pause follows the second candidate only.
\<close>

theorem no_pause_after_failed_fetch:
  "trace (scan_loop
       \<lparr>url_quote = (\<lambda>s. s),
        search_get = (\<lambda>u t. Inl RequestException),
        content_get = (\<lambda>u t. if u = ''u1'' then Inr \<lparr>r_status = 404, r_text = ''Not Found'', r_reset = None, r_json = Inl JSONDecodeError\<rparr>
                               else Inr \<lparr>r_status = 200, r_text = '''', r_reset = None, r_json = Inr \<lparr>ci_encoding = ''utf-8'', ci_content = ''name: lint''\<rparr>\<rparr>),
        yaml_safe_load = (\<lambda>s. Inl YAMLError),
        b64decode_utf8 = (\<lambda>s. Inl DecodeError),
        int_of_str = (\<lambda>s. Inl ValueError),
        now = 0,
        fs_open = (\<lambda>p. None),
        fs_write = (\<lambda>p k. None),
        fs_close = (\<lambda>p. None)\<rparr>
       ''a/b'' ''tok''
       [\<lparr>c_repo = ''acme/app'', c_path = ''.github/workflows/ci.yml'', c_url = ''u1''\<rparr>,
        \<lparr>c_repo = ''acme/lib'', c_path = ''.github/workflows/test.yml'', c_url = ''u2''\<rparr>] [])
   = [Print (AnalyzingMsg 1 2 ''acme/app'' ''.github/workflows/ci.yml''), HttpGet ''u1'',
      Print (ProcessErrorMsg ''.github/workflows/ci.yml'' (HTTPError 404 ''Not Found'')),
      Print (AnalyzingMsg 2 2 ''acme/lib'' ''.github/workflows/test.yml''), HttpGet ''u2'',
      Sleep 500]"
  by (simp add: scan_loop_def process_item_def get_file_content_def raise_for_status_def
      analyze_workflow_content_def Let_def)

lemma stored_count_map_entry:
  "r \<in> fst ` set d \<Longrightarrow> stored_count (AList.map_entry r (\<lambda>us. us @ [u]) d) = Suc (stored_count d)"
  by (induction d) (auto simp: stored_count_def)

lemma stored_count_record_instances:
  "r \<in> fst ` set d \<Longrightarrow>
   stored_count (record_instances r fn fp insts d) = stored_count d + length insts"
proof (induction insts arbitrary: d)
  case Nil
  show ?case by (simp add: record_instances_def)
next
  case (Cons i insts)
  let ?d' = "AList.map_entry r (\<lambda>us. us @ [\<lparr>u_workflow = fn, u_path = fp, u_instance = i\<rparr>]) d"
  have k: "r \<in> fst ` set ?d'" using Cons.prems by (simp add: dom_map_entry)
  have "record_instances r fn fp (i # insts) d = record_instances r fn fp insts ?d'"
    by (simp add: record_instances_def)
  then show ?case
    using Cons.IH[OF k] stored_count_map_entry[OF Cons.prems] by simp
qed

lemma ensure_repo_key: "r \<in> fst ` set (ensure_repo r d)"
  by (simp add: ensure_repo_def)

lemma stored_count_ensure_repo: "stored_count (ensure_repo r d) = stored_count d"
  by (simp add: ensure_repo_def stored_count_def)

lemma process_item_count:
  assumes "total_usages st = stored_count (usage_by_repo st)"
  shows "total_usages (process_item w a tok n st item)
         = stored_count (usage_by_repo (process_item w a tok n st item))"
proof (cases "get_file_content w (c_url item) tok")
  case (Inl e)
  with assms show ?thesis by (simp add: process_item_def Let_def)
next
  case (Inr content)
  obtain insts effs where an: "analyze_workflow_content (yaml_safe_load w) content a
        \<lparr>fi_repo = c_repo item, fi_path = c_path item, fi_name = basename (c_path item)\<rparr>
        = (insts, effs)" by (cases "analyze_workflow_content (yaml_safe_load w) content a
        \<lparr>fi_repo = c_repo item, fi_path = c_path item, fi_name = basename (c_path item)\<rparr>")
  show ?thesis
    using assms Inr an
    by (simp add: process_item_def Let_def stored_count_record_instances[OF ensure_repo_key]
        stored_count_ensure_repo)
qed

lemma foldl_process_item_count:
  "total_usages st = stored_count (usage_by_repo st) \<Longrightarrow>
   total_usages (foldl (process_item w a tok n) st items)
   = stored_count (usage_by_repo (foldl (process_item w a tok n) st items))"
  by (induction items arbitrary: st) (simp_all add: process_item_count)

text \<open>
  Claim C8. After the scan loop, whatever the candidates and whatever each fetch and each
  analysis did, the total usage count is the sum, over the repositories of the aggregate, of
  the number of usage records stored for the repository.
\<close>

theorem total_equals_stored_usages:
  "total_usages (scan_loop w a tok items effs)
   = sum_list (map (\<lambda>p. length (snd p)) (usage_by_repo (scan_loop w a tok items effs)))"
  unfolding scan_loop_def stored_count_def[symmetric]
  by (rule foldl_process_item_count) (simp add: stored_count_def)

text \<open>The theorem at a concrete input.\<close>

theorem total_equals_stored_usages_witness:
  "sum_list (map (\<lambda>p. length (snd p)) (usage_by_repo (scan_loop
       \<lparr>url_quote = (\<lambda>s. s),
        search_get = (\<lambda>u t. Inr \<lparr>r_status = 200, r_text = '''', r_reset = None, r_json = Inr \<lparr>sb_message = None, sb_items = Some [\<lparr>c_repo = ''acme/web'', c_path = ''.github/workflows/ci.yml'', c_url = ''u1''\<rparr>,
            \<lparr>c_repo = ''acme/api'', c_path = ''.github/workflows/ci.yml'', c_url = ''u2''\<rparr>,
            \<lparr>c_repo = ''acme/web'', c_path = ''.github/workflows/release.yml'', c_url = ''u3''\<rparr>]\<rparr>\<rparr>),
        content_get = (\<lambda>u t. Inr \<lparr>r_status = 200, r_text = '''', r_reset = None, r_json = Inr \<lparr>ci_encoding = ''utf-8'', ci_content = ''jobs: {build: {steps: [{uses: a/b@v1}]}}''\<rparr>\<rparr>),
        yaml_safe_load = (\<lambda>s. Inr (YMap [(YStr ''jobs'', YMap [(YStr ''build'', YMap [(YStr ''steps'', YList [YMap [(YStr ''uses'', YStr ''a/b@v1'')]])])])])),
        b64decode_utf8 = (\<lambda>s. Inl DecodeError),
        int_of_str = (\<lambda>s. Inl ValueError),
        now = 0,
        fs_open = (\<lambda>p. None),
        fs_write = (\<lambda>p k. None),
        fs_close = (\<lambda>p. None)\<rparr>
       ''a/b'' ''tok''
       [\<lparr>c_repo = ''acme/web'', c_path = ''.github/workflows/ci.yml'', c_url = ''u1''\<rparr>,
            \<lparr>c_repo = ''acme/api'', c_path = ''.github/workflows/ci.yml'', c_url = ''u2''\<rparr>,
            \<lparr>c_repo = ''acme/web'', c_path = ''.github/workflows/release.yml'', c_url = ''u3''\<rparr>] []))) = 3"
proof -
  let ?W = "\<lparr>url_quote = (\<lambda>s. s),
        search_get = (\<lambda>u t. Inr \<lparr>r_status = 200, r_text = '''', r_reset = None, r_json = Inr \<lparr>sb_message = None, sb_items = Some [\<lparr>c_repo = ''acme/web'', c_path = ''.github/workflows/ci.yml'', c_url = ''u1''\<rparr>,
            \<lparr>c_repo = ''acme/api'', c_path = ''.github/workflows/ci.yml'', c_url = ''u2''\<rparr>,
            \<lparr>c_repo = ''acme/web'', c_path = ''.github/workflows/release.yml'', c_url = ''u3''\<rparr>]\<rparr>\<rparr>),
        content_get = (\<lambda>u t. Inr \<lparr>r_status = 200, r_text = '''', r_reset = None, r_json = Inr \<lparr>ci_encoding = ''utf-8'', ci_content = ''jobs: {build: {steps: [{uses: a/b@v1}]}}''\<rparr>\<rparr>),
        yaml_safe_load = (\<lambda>s. Inr (YMap [(YStr ''jobs'', YMap [(YStr ''build'', YMap [(YStr ''steps'', YList [YMap [(YStr ''uses'', YStr ''a/b@v1'')]])])])])),
        b64decode_utf8 = (\<lambda>s. Inl DecodeError),
        int_of_str = (\<lambda>s. Inl ValueError),
        now = 0,
        fs_open = (\<lambda>p. None),
        fs_write = (\<lambda>p k. None),
        fs_close = (\<lambda>p. None)\<rparr>"
  let ?items = "[\<lparr>c_repo = ''acme/web'', c_path = ''.github/workflows/ci.yml'', c_url = ''u1''\<rparr>,
            \<lparr>c_repo = ''acme/api'', c_path = ''.github/workflows/ci.yml'', c_url = ''u2''\<rparr>,
            \<lparr>c_repo = ''acme/web'', c_path = ''.github/workflows/release.yml'', c_url = ''u3''\<rparr>]"
  have "total_usages (scan_loop ?W ''a/b'' ''tok'' ?items []) = 3"
    by (simp add: scan_loop_def process_item_def get_file_content_def raise_for_status_def
        analyze_workflow_content_def extract_instances_def step_uses_action_def make_instance_def
        str_of_nat_digit digit_char_def basename_def Let_def)
  then show ?thesis
    using total_equals_stored_usages[of ?W "''a/b''" "''tok''" ?items "[]"] by simp
qed

section \<open>Properties of the aggregate and of the report\<close>

lemma map_of_record_instances:
  "map_of (record_instances r fn fp insts d) =
   (map_of d)(r := map_option
      (\<lambda>us. us @ map (\<lambda>i. \<lparr>u_workflow = fn, u_path = fp, u_instance = i\<rparr>) insts) (map_of d r))"
proof (induction insts arbitrary: d)
  case Nil
  show ?case by (auto simp: record_instances_def fun_eq_iff option.map_ident)
next
  case (Cons i insts)
  let ?d' = "AList.map_entry r (\<lambda>us. us @ [\<lparr>u_workflow = fn, u_path = fp, u_instance = i\<rparr>]) d"
  have "record_instances r fn fp (i # insts) d = record_instances r fn fp insts ?d'"
    by (simp add: record_instances_def)
  then show ?case
    by (auto simp: Cons.IH map_of_map_entry fun_eq_iff split: option.splits)
qed

lemma distinct_record_instances:
  "distinct (map fst d) \<Longrightarrow> distinct (map fst (record_instances r fn fp insts d))"
proof (induction insts arbitrary: d)
  case Nil
  then show ?case by (simp add: record_instances_def)
next
  case (Cons i insts)
  let ?d' = "AList.map_entry r (\<lambda>us. us @ [\<lparr>u_workflow = fn, u_path = fp, u_instance = i\<rparr>]) d"
  have "record_instances r fn fp (i # insts) d = record_instances r fn fp insts ?d'"
    by (simp add: record_instances_def)
  with Cons.IH[OF distinct_map_entry[OF Cons.prems]] show ?case by simp
qed

lemma distinct_ensure_repo:
  "distinct (map fst d) \<Longrightarrow> distinct (map fst (ensure_repo r d))"
  by (auto simp: ensure_repo_def)

lemma map_of_ensure_repo:
  "map_of (ensure_repo r d) r = Some (case map_of d r of None \<Rightarrow> [] | Some us \<Rightarrow> us)"
  "r' \<noteq> r \<Longrightarrow> map_of (ensure_repo r d) r' = map_of d r'"
proof -
  show "map_of (ensure_repo r d) r = Some (case map_of d r of None \<Rightarrow> [] | Some us \<Rightarrow> us)"
  proof (cases "map_of d r")
    case None
    then have "r \<notin> fst ` set d" by (simp add: map_of_eq_None_iff)
    with None show ?thesis by (simp add: ensure_repo_def map_add_def)
  next
    case (Some us)
    then have "r \<in> fst ` set d" by (metis map_of_eq_None_iff option.distinct(1))
    with Some show ?thesis by (simp add: ensure_repo_def)
  qed
  show "r' \<noteq> r \<Longrightarrow> map_of (ensure_repo r d) r' = map_of d r'"
    by (simp add: ensure_repo_def map_add_def split: option.splits)
qed

lemma usages_of_append: "usages_of r (xs @ ys) = usages_of r xs @ usages_of r ys"
  by (simp add: usages_of_def)

lemma usages_of_absent: "r \<notin> fst ` set xs \<Longrightarrow> usages_of r xs = []"
  by (auto simp: usages_of_def filter_empty_conv)

lemma usages_of_same: "usages_of r (map (\<lambda>i. (r, f i)) insts) = map f insts"
  by (simp add: usages_of_def o_def)

lemma dict_inv_record:
  assumes inv: "dict_inv d found" and ne: "insts \<noteq> []"
  shows "dict_inv (record_instances r fn fp insts (ensure_repo r d))
           (found @ map (\<lambda>i. (r, \<lparr>u_workflow = fn, u_path = fp, u_instance = i\<rparr>)) insts)"
proof -
  let ?mk = "\<lambda>i. \<lparr>u_workflow = fn, u_path = fp, u_instance = i\<rparr>"
  let ?F = "map (\<lambda>i. (r, ?mk i)) insts"
  from inv have dist: "distinct (map fst d)"
    and mo: "\<And>x. map_of d x = (if x \<in> fst ` set found then Some (usages_of x found) else None)"
    by (simp_all add: dict_inv_def)
  from ne obtain i0 where "i0 \<in> set insts" by (cases insts) auto
  then have keysF: "fst ` set ?F = {r}" by (auto simp: image_image)
  have d1: "distinct (map fst (record_instances r fn fp insts (ensure_repo r d)))"
    by (intro distinct_record_instances distinct_ensure_repo dist)
  have "map_of (record_instances r fn fp insts (ensure_repo r d)) x =
        (if x \<in> fst ` set (found @ ?F) then Some (usages_of x (found @ ?F)) else None)" for x
  proof (cases "x = r")
    case True
    have "map_of (record_instances r fn fp insts (ensure_repo r d)) r =
          Some ((case map_of d r of None \<Rightarrow> [] | Some us \<Rightarrow> us) @ map ?mk insts)"
      by (simp add: map_of_record_instances map_of_ensure_repo(1))
    also have "(case map_of d r of None \<Rightarrow> [] | Some us \<Rightarrow> us) = usages_of r found"
      by (simp add: mo usages_of_absent)
    finally show ?thesis
      using True keysF by (simp add: usages_of_append usages_of_same image_Un)
  next
    case False
    then have "map_of (record_instances r fn fp insts (ensure_repo r d)) x = map_of d x"
      by (simp add: map_of_record_instances map_of_ensure_repo(2))
    moreover have "usages_of x ?F = []" using False keysF by (intro usages_of_absent) simp
    ultimately show ?thesis using False keysF by (simp add: mo usages_of_append image_Un)
  qed
  with d1 show ?thesis unfolding dict_inv_def by blast
qed

lemma process_item_inv:
  assumes "dict_inv (usage_by_repo st) found"
  shows "dict_inv (usage_by_repo (process_item w a tok n st item)) (found @ found_in w a tok item)"
proof (cases "get_file_content w (c_url item) tok")
  case (Inl e)
  with assms show ?thesis by (simp add: process_item_def found_in_def Let_def)
next
  case (Inr content)
  obtain insts effs where an: "analyze_workflow_content (yaml_safe_load w) content a
        \<lparr>fi_repo = c_repo item, fi_path = c_path item, fi_name = basename (c_path item)\<rparr>
        = (insts, effs)" by (cases "analyze_workflow_content (yaml_safe_load w) content a
        \<lparr>fi_repo = c_repo item, fi_path = c_path item, fi_name = basename (c_path item)\<rparr>")
  show ?thesis
  proof (cases "insts = []")
    case True
    with assms Inr an show ?thesis by (simp add: process_item_def found_in_def Let_def)
  next
    case False
    from dict_inv_record[OF assms False] Inr an False show ?thesis
      by (simp add: process_item_def found_in_def Let_def)
  qed
qed

lemma foldl_process_item_inv:
  "dict_inv (usage_by_repo st) found \<Longrightarrow>
   dict_inv (usage_by_repo (foldl (process_item w a tok n) st items))
     (found @ discovered w a tok items)"
proof (induction items arbitrary: st found)
  case Nil
  then show ?case by (simp add: discovered_def)
next
  case (Cons item items)
  from Cons.IH[OF process_item_inv[OF Cons.prems]] show ?case
    by (simp add: discovered_def)
qed

lemma scan_loop_inv:
  "dict_inv (usage_by_repo (scan_loop w a tok items effs)) (discovered w a tok items)"
  using foldl_process_item_inv[of "\<lparr>usage_by_repo = [], total_usages = 0, files_processed = 0, trace = effs\<rparr>" "[]" w a tok "length items" items]
  by (simp add: scan_loop_def dict_inv_def)

lemma process_item_total:
  "total_usages (process_item w a tok n st item) = total_usages st + length (found_in w a tok item)"
proof (cases "get_file_content w (c_url item) tok")
  case (Inl e)
  then show ?thesis by (simp add: process_item_def found_in_def Let_def)
next
  case (Inr content)
  then show ?thesis
    by (simp add: process_item_def found_in_def Let_def split: prod.splits)
qed

lemma foldl_process_item_total:
  "total_usages (foldl (process_item w a tok n) st items)
   = total_usages st + length (discovered w a tok items)"
  by (induction items arbitrary: st) (simp_all add: discovered_def process_item_total)

lemma scan_loop_total:
  "total_usages (scan_loop w a tok items effs) = length (discovered w a tok items)"
  by (simp add: scan_loop_def foldl_process_item_total)

lemma dict_inv_keys:
  assumes "dict_inv d found"
  shows "fst ` set d = fst ` set found"
proof -
  from assms have "dom (map_of d) = fst ` set found"
    by (auto simp: dict_inv_def dom_def)
  then show ?thesis by (simp add: dom_map_of_conv_image_fst)
qed

lemma dict_inv_sorted:
  assumes inv: "dict_inv d found"
  shows "sort_key fst d = map (\<lambda>r. (r, usages_of r found)) (sorted_list_of_set (fst ` set found))"
proof -
  let ?L = "sort_key fst d"
  from inv have dist: "distinct (map fst d)" by (simp add: dict_inv_def)
  then have "distinct d" "inj_on fst (set d)" by (simp_all add: distinct_map)
  then have dL: "distinct (map fst ?L)" by (simp add: distinct_map)
  have sL: "sorted (map fst ?L)" by (rule sorted_sort_key)
  have setL: "set (map fst ?L) = fst ` set found" using dict_inv_keys[OF inv] by simp
  have keys: "map fst ?L = sorted_list_of_set (fst ` set found)"
    by (rule sorted_distinct_set_unique[OF sL dL]) (simp_all add: setL[symmetric] del: set_map)
  have "p = (fst p, usages_of (fst p) found)" if "p \<in> set ?L" for p
  proof -
    from that have "p \<in> set d" by simp
    then have "(fst p, snd p) \<in> set d" by simp
    from map_of_is_SomeI[OF dist this] inv have "usages_of (fst p) found = snd p"
      by (simp add: dict_inv_def split: if_splits)
    then show ?thesis by (simp add: prod_eq_iff)
  qed
  then have "map (\<lambda>p. (fst p, usages_of (fst p) found)) ?L = ?L"
    by (intro map_idI) simp
  then have "?L = map (\<lambda>p. (fst p, usages_of (fst p) found)) ?L" by simp
  also have "\<dots> = map (\<lambda>r. (r, usages_of r found)) (map fst ?L)" by (simp add: o_def)
  finally show ?thesis by (simp only: keys)
qed

lemma repo_lines_append: "repo_lines (xs @ ys) = repo_lines xs @ repo_lines ys"
  by (simp add: repo_lines_def map_filter_def)

lemma repo_lines_Nil: "repo_lines [] = []"
  by (simp add: repo_lines_def map_filter_def)

lemma repo_lines_params: "repo_lines (map (\<lambda>pv. ParamLine (fst pv) (snd pv)) kvs) = []"
  by (induction kvs) (simp_all add: repo_lines_def map_filter_def)

lemma repo_lines_write_inputs: "repo_lines (fst (write_inputs v)) = []"
proof (cases "py_items v")
  case (Inl e)
  then show ?thesis by (simp add: write_inputs_def repo_lines_def map_filter_def)
next
  case (Inr kvs)
  have "repo_lines (ConfigTitle # map (\<lambda>pv. ParamLine (fst pv) (snd pv)) kvs) = []"
    using repo_lines_params[of kvs] by (simp add: repo_lines_def map_filter_def)
  with Inr show ?thesis by (simp add: write_inputs_def repo_lines_Nil)
qed

lemma repo_lines_write_instance: "repo_lines (fst (write_instance i u)) = []"
proof -
  obtain ls e where wi: "write_inputs (inputs (u_instance u)) = (ls, e)"
    by (cases "write_inputs (inputs (u_instance u))")
  with repo_lines_write_inputs[of "inputs (u_instance u)"] have "repo_lines ls = []" by simp
  then show ?thesis
    by (cases e) (simp_all add: write_instance_def wi repo_lines_append, simp_all add: repo_lines_def map_filter_def)
qed

lemma repo_lines_write_instances: "repo_lines (fst (write_instances i us)) = []"
proof (induction us arbitrary: i)
  case Nil
  show ?case by (simp add: repo_lines_Nil)
next
  case (Cons u us)
  obtain ls e where w1: "write_instance i u = (ls, e)" by (cases "write_instance i u")
  with repo_lines_write_instance[of i u] have l1: "repo_lines ls = []" by simp
  obtain ls' e' where w2: "write_instances (Suc i) us = (ls', e')"
    by (cases "write_instances (Suc i) us")
  with Cons.IH[of "Suc i"] have l2: "repo_lines ls' = []" by simp
  show ?case by (cases e) (simp_all add: w1 w2 l1 l2 repo_lines_append)
qed

lemma repo_lines_write_repo: "repo_lines (fst (write_repo p)) = [fst p]"
proof -
  obtain ls e where w1: "write_instances (Suc 0) (snd p) = (ls, e)"
    by (cases "write_instances (Suc 0) (snd p)")
  with repo_lines_write_instances[of "Suc 0" "snd p"] have l1: "repo_lines ls = []" by simp
  have h: "repo_lines [RepoLine (fst p), RepoRule n] = [fst p]" for n
    by (simp add: repo_lines_def map_filter_def)
  have t: "repo_lines [RepoEnd] = []" by (simp add: repo_lines_def map_filter_def)
  show ?thesis
    by (cases e) (simp_all add: write_repo_def w1 repo_lines_append h l1 t repo_lines_Nil del: append.simps length_append)
qed

lemma write_repos_complete:
  "snd (write_repos ps) = None \<Longrightarrow> fst (write_repos ps) = concat (map (\<lambda>p. fst (write_repo p)) ps)"
proof (induction ps)
  case Nil
  show ?case by simp
next
  case (Cons p ps)
  obtain ls e where w1: "write_repo p = (ls, e)" by (cases "write_repo p")
  obtain ls' e' where w2: "write_repos ps = (ls', e')" by (cases "write_repos ps")
  from Cons.prems w1 w2 have e: "e = None" and e': "e' = None"
    by (cases e; simp)+
  with Cons.IH w2 have "ls' = concat (map (\<lambda>p. fst (write_repo p)) ps)" by simp
  then show ?case by (simp add: w1 w2 e)
qed

lemma repo_lines_sections:
  "repo_lines (concat (map (\<lambda>p. fst (write_repo p)) ps)) = map fst ps"
  by (induction ps) (simp_all add: repo_lines_Nil repo_lines_append repo_lines_write_repo)

lemma repo_lines_header:
  "repo_lines [ReportTitle a org, TitleRule, ReposLine n, TotalLine m, DetailTitle, DetailRule] = []"
  "repo_lines [ReportTitle a org, TitleRule, ReposLine n, TotalLine m, NoInstancesLine] = []"
  by (simp_all add: repo_lines_def map_filter_def)

lemma write_inputs_spec: "snd (write_inputs v) = None \<Longrightarrow> fst (write_inputs v) = spec_config v"
  by (cases v) (simp_all add: write_inputs_def split: if_splits)

lemma write_instance_spec:
  assumes "snd (write_instance i u) = None"
  shows "fst (write_instance i u) = spec_instance_section i u"
proof -
  obtain ls e where wi: "write_inputs (inputs (u_instance u)) = (ls, e)"
    by (cases "write_inputs (inputs (u_instance u))")
  with assms have e: "e = None" by (simp add: write_instance_def)
  with wi write_inputs_spec[of "inputs (u_instance u)"]
  have "ls = spec_config (inputs (u_instance u))" by simp
  with wi e show ?thesis by (simp add: write_instance_def spec_instance_section_def)
qed

lemma write_instances_spec:
  "snd (write_instances i us) = None \<Longrightarrow>
   fst (write_instances i us)
   = concat (map (\<lambda>iu. spec_instance_section (fst iu) (snd iu)) (enumerate i us))"
proof (induction us arbitrary: i)
  case Nil
  show ?case by simp
next
  case (Cons u us)
  obtain ls e where w1: "write_instance i u = (ls, e)" by (cases "write_instance i u")
  obtain ls' e' where w2: "write_instances (Suc i) us = (ls', e')"
    by (cases "write_instances (Suc i) us")
  from Cons.prems w1 w2 have e: "e = None" and e': "e' = None"
    by (cases e; simp)+
  from write_instance_spec[of i u] w1 e have l1: "ls = spec_instance_section i u" by simp
  from Cons.IH[of "Suc i"] w2 e'
  have "ls' = concat (map (\<lambda>iu. spec_instance_section (fst iu) (snd iu)) (enumerate (Suc i) us))"
    by simp
  with l1 w1 w2 e show ?case by simp
qed

lemma write_repo_spec:
  assumes "snd (write_repo p) = None"
  shows "fst (write_repo p) = spec_repo_section (fst p) (snd p)"
proof -
  obtain ls e where w1: "write_instances (Suc 0) (snd p) = (ls, e)"
    by (cases "write_instances (Suc 0) (snd p)")
  with assms have e: "e = None" by (simp add: write_repo_def)
  with w1 write_instances_spec[of "Suc 0" "snd p"]
  have "ls = concat (map (\<lambda>iu. spec_instance_section (fst iu) (snd iu)) (enumerate (Suc 0) (snd p)))"
    by simp
  with w1 e show ?thesis by (simp add: write_repo_def spec_repo_section_def)
qed

lemma write_repos_spec:
  "snd (write_repos ps) = None \<Longrightarrow>
   fst (write_repos ps) = concat (map (\<lambda>p. spec_repo_section (fst p) (snd p)) ps)"
proof (induction ps)
  case Nil
  show ?case by simp
next
  case (Cons p ps)
  obtain ls e where w1: "write_repo p = (ls, e)" by (cases "write_repo p")
  obtain ls' e' where w2: "write_repos ps = (ls', e')" by (cases "write_repos ps")
  from Cons.prems w1 w2 have e: "e = None" and e': "e' = None"
    by (cases e; simp)+
  from write_repo_spec[of p] w1 e have l1: "ls = spec_repo_section (fst p) (snd p)" by simp
  from Cons.IH w2 e' have "ls' = concat (map (\<lambda>p. spec_repo_section (fst p) (snd p)) ps)" by simp
  with l1 w1 w2 e show ?case by simp
qed

lemma write_lines_complete: "write_lines wr k ls = (written, None) \<Longrightarrow> written = ls"
proof (induction ls arbitrary: k written)
  case Nil
  then show ?case by simp
next
  case (Cons l ls)
  show ?case
  proof (cases "wr k")
    case (Some e)
    with Cons.prems show ?thesis by simp
  next
    case None
    obtain rest e' where r: "write_lines wr (Suc k) ls = (rest, e')"
      by (cases "write_lines wr (Suc k) ls")
    with Cons.prems None have "e' = None" and "written = l # rest" by simp_all
    with Cons.IH[of "Suc k" rest] r show ?thesis by simp
  qed
qed


lemma with_report_file_done:
  assumes "with_report_file w p body = (held, None)"
  shows "snd body = None \<and> held = Some (fst body)"
proof -
  from assms have op: "fs_open w p = None"
    by (cases "fs_open w p") (simp_all add: with_report_file_def)
  obtain written werr where wl: "write_lines (fs_write w p) 0 (fst body) = (written, werr)"
    by (cases "write_lines (fs_write w p) 0 (fst body)")
  from assms op wl have werr: "werr = None"
    by (cases werr) (simp_all add: with_report_file_def)
  from assms op wl werr have b: "snd body = None"
    by (cases "snd body") (simp_all add: with_report_file_def)
  from write_lines_complete wl werr have "written = fst body" by simp
  with assms op wl werr b show ?thesis by (simp add: with_report_file_def)
qed


lemma main_completed:
  assumes tok: "arg_token args = Some tok"
    and srch: "fst (search_for_action w (arg_org args) (arg_action args) tok (arg_broad_search args)) = Inr items"
    and ex: "run_outcome (main w args) = Exit 0"
  shows "\<exists>effs. snd (write_report (arg_action args) (arg_org args)
                  (usage_by_repo (scan_loop w (arg_action args) tok items effs))
                  (total_usages (scan_loop w (arg_action args) tok items effs))) = None
         \<and> run_report (main w args) =
             Some (fst (write_report (arg_action args) (arg_org args)
                  (usage_by_repo (scan_loop w (arg_action args) tok items effs))
                  (total_usages (scan_loop w (arg_action args) tok items effs))))"
proof -
  obtain effs0 where s0: "search_for_action w (arg_org args) (arg_action args) tok (arg_broad_search args)
      = (Inr items, effs0)"
    using srch by (cases "search_for_action w (arg_org args) (arg_action args) tok (arg_broad_search args)") auto
  let ?effs = "effs0 @ [Print (FoundFilesMsg (length items))]"
  let ?st = "scan_loop w (arg_action args) tok items ?effs"
  let ?body = "write_report (arg_action args) (arg_org args) (usage_by_repo ?st) (total_usages ?st)"
  obtain held e where wf: "with_report_file w (arg_output args) ?body = (held, e)"
    by (cases "with_report_file w (arg_output args) ?body")
  from ex tok s0 wf have "tok \<noteq> []"
    by (auto simp: main_def split: if_splits)
  with ex tok s0 wf have e: "e = None"
    by (cases e) (simp_all add: main_def Let_def)
  with tok s0 wf \<open>tok \<noteq> []\<close> have r: "run_report (main w args) = held"
    by (simp add: main_def Let_def)
  from with_report_file_done[of w "arg_output args" ?body held] wf e
  have "snd ?body = None" and "held = Some (fst ?body)" by simp_all
  with r show ?thesis by (intro exI[of _ ?effs]) simp
qed

text \<open>
  Claim C7. For a run that completes, with \<open>D\<close> the usages discovered in the order of
  discovery, the report file holds exactly the report of the specification for \<open>D\<close>: the
  four header lines; then, when nothing was discovered, the single line saying so, and
  otherwise the title of the detailed part and one section for each repository, the
  repositories in strictly increasing lexicographic order of their full names whatever the
  order of discovery, and in each section the usages of the repository in the order of
  discovery, numbered from 1. The repository lines of the report are exactly that sorted
  list.
\<close>

theorem report_order:
  assumes tok: "arg_token args = Some tok"
    and srch: "fst (search_for_action w (arg_org args) (arg_action args) tok (arg_broad_search args)) = Inr items"
    and ex: "run_outcome (main w args) = Exit 0"
    and D: "D = discovered w (arg_action args) tok items"
  shows "run_report (main w args) = Some (spec_report (arg_action args) (arg_org args) D)
         \<and> map_option repo_lines (run_report (main w args)) = Some (sorted_list_of_set (fst ` set D))
         \<and> sorted (sorted_list_of_set (fst ` set D))
         \<and> distinct (sorted_list_of_set (fst ` set D))"
proof -
  from main_completed[OF tok srch ex] obtain effs where
    ok: "snd (write_report (arg_action args) (arg_org args)
                  (usage_by_repo (scan_loop w (arg_action args) tok items effs))
                  (total_usages (scan_loop w (arg_action args) tok items effs))) = None"
    and rep: "run_report (main w args) =
             Some (fst (write_report (arg_action args) (arg_org args)
                  (usage_by_repo (scan_loop w (arg_action args) tok items effs))
                  (total_usages (scan_loop w (arg_action args) tok items effs))))"
    by blast
  let ?d = "usage_by_repo (scan_loop w (arg_action args) tok items effs)"
  have inv: "dict_inv ?d D" unfolding D by (rule scan_loop_inv)
  have tot: "total_usages (scan_loop w (arg_action args) tok items effs) = length D"
    unfolding D by (rule scan_loop_total)
  have keys: "fst ` set ?d = fst ` set D" by (rule dict_inv_keys[OF inv])
  from inv have dist: "distinct (map fst ?d)" by (simp add: dict_inv_def)
  have len: "length ?d = card (fst ` set D)"
    using distinct_card[OF dist] keys by simp
  have empty: "?d = [] \<longleftrightarrow> D = []"
    using keys by (metis image_is_empty set_empty)
  let ?S = "sorted_list_of_set (fst ` set D)"
  let ?secs = "map (\<lambda>r. (r, usages_of r D)) ?S"
  have srt: "sort_key fst ?d = ?secs" by (rule dict_inv_sorted[OF inv])
  have secs_ok: "snd (write_repos ?secs) = None" if "D \<noteq> []"
  proof -
    from that empty have "?d \<noteq> []" by simp
    with ok show ?thesis
      by (simp add: write_report_def tot srt Let_def split: prod.splits)
  qed
  have secs_spec: "fst (write_repos ?secs)
                   = concat (map (\<lambda>r. spec_repo_section r (usages_of r D)) ?S)" if "D \<noteq> []"
    using write_repos_spec[OF secs_ok[OF that]] by (simp add: o_def)
  have lines: "fst (write_report (arg_action args) (arg_org args) ?d (length D))
               = spec_report (arg_action args) (arg_org args) D"
  proof (cases "D = []")
    case True
    with empty have "?d = []" by simp
    with True show ?thesis by (simp add: write_report_def spec_report_def)
  next
    case False
    with empty have ne: "?d \<noteq> []" by simp
    obtain ls' e' where wr: "write_repos ?secs = (ls', e')" by (cases "write_repos ?secs")
    with secs_spec[OF False]
    have "ls' = concat (map (\<lambda>r. spec_repo_section r (usages_of r D)) ?S)" by simp
    with False ne wr show ?thesis
      by (simp add: write_report_def spec_report_def srt len Let_def)
  qed
  have one: "run_report (main w args) = Some (spec_report (arg_action args) (arg_org args) D)"
    using rep lines by (simp add: tot)
  have rl: "repo_lines (spec_report (arg_action args) (arg_org args) D) = ?S"
  proof (cases "D = []")
    case True
    then show ?thesis using repo_lines_header(2) by (simp add: spec_report_def)
  next
    case False
    have "fst (write_repos ?secs) = concat (map (\<lambda>p. fst (write_repo p)) ?secs)"
      by (rule write_repos_complete[OF secs_ok[OF False]])
    with secs_spec[OF False]
    have "repo_lines (concat (map (\<lambda>r. spec_repo_section r (usages_of r D)) ?S))
          = repo_lines (concat (map (\<lambda>p. fst (write_repo p)) ?secs))" by simp
    also have "\<dots> = ?S" using repo_lines_sections[of ?secs] by (simp add: o_def)
    finally have "repo_lines (concat (map (\<lambda>r. spec_repo_section r (usages_of r D)) ?S)) = ?S" .
    with False show ?thesis
      using repo_lines_append[of "[ReportTitle (arg_action args) (arg_org args), TitleRule,
                  ReposLine (card (fst ` set D)), TotalLine (length D)] @ [DetailTitle, DetailRule]"
          "concat (map (\<lambda>r. spec_repo_section r (usages_of r D)) ?S)"]
        repo_lines_header(1)[of "arg_action args" "arg_org args" "card (fst ` set D)" "length D"]
      by (simp add: spec_report_def)
  qed
  from one rl show ?thesis by simp
qed

text \<open>The theorem at a concrete input.\<close>

theorem report_order_witness:
  "run_report (main
       \<lparr>url_quote = (\<lambda>s. s),
        search_get = (\<lambda>u t. Inr \<lparr>r_status = 200, r_text = '''', r_reset = None, r_json = Inr \<lparr>sb_message = None, sb_items = Some [\<lparr>c_repo = ''acme/web'', c_path = ''.github/workflows/ci.yml'', c_url = ''u1''\<rparr>,
            \<lparr>c_repo = ''acme/api'', c_path = ''.github/workflows/ci.yml'', c_url = ''u2''\<rparr>,
            \<lparr>c_repo = ''acme/web'', c_path = ''.github/workflows/release.yml'', c_url = ''u3''\<rparr>]\<rparr>\<rparr>),
        content_get = (\<lambda>u t. Inr \<lparr>r_status = 200, r_text = '''', r_reset = None, r_json = Inr \<lparr>ci_encoding = ''utf-8'', ci_content = ''jobs: {build: {steps: [{uses: a/b@v1}]}}''\<rparr>\<rparr>),
        yaml_safe_load = (\<lambda>s. Inr (YMap [(YStr ''jobs'', YMap [(YStr ''build'', YMap [(YStr ''steps'', YList [YMap [(YStr ''uses'', YStr ''a/b@v1'')]])])])])),
        b64decode_utf8 = (\<lambda>s. Inl DecodeError),
        int_of_str = (\<lambda>s. Inl ValueError),
        now = 0,
        fs_open = (\<lambda>p. None),
        fs_write = (\<lambda>p k. None),
        fs_close = (\<lambda>p. None)\<rparr>
       \<lparr>arg_org = ''acme'', arg_action = ''a/b'', arg_token = Some ''tok'',
        arg_output = ''action_usage_report.txt'', arg_broad_search = False\<rparr>)
   = Some
      [ReportTitle ''a/b'' ''acme'', TitleRule, ReposLine 2, TotalLine 3, DetailTitle, DetailRule,
       RepoLine ''acme/api'', RepoRule 20,
       InstanceLine 1, WorkflowLine ''ci.yml'' ''.github/workflows/ci.yml'', JobLine (YStr ''build''),
       StepLine (YStr ''Step 1''), RefLine (YStr ''a/b@v1''), InstanceEnd, RepoEnd,
       RepoLine ''acme/web'', RepoRule 20,
       InstanceLine 1, WorkflowLine ''ci.yml'' ''.github/workflows/ci.yml'', JobLine (YStr ''build''),
       StepLine (YStr ''Step 1''), RefLine (YStr ''a/b@v1''), InstanceEnd,
       InstanceLine 2, WorkflowLine ''release.yml'' ''.github/workflows/release.yml'', JobLine (YStr ''build''),
       StepLine (YStr ''Step 1''), RefLine (YStr ''a/b@v1''), InstanceEnd, RepoEnd]"
proof -
  let ?W = "\<lparr>url_quote = (\<lambda>s. s),
        search_get = (\<lambda>u t. Inr \<lparr>r_status = 200, r_text = '''', r_reset = None, r_json = Inr \<lparr>sb_message = None, sb_items = Some [\<lparr>c_repo = ''acme/web'', c_path = ''.github/workflows/ci.yml'', c_url = ''u1''\<rparr>,
            \<lparr>c_repo = ''acme/api'', c_path = ''.github/workflows/ci.yml'', c_url = ''u2''\<rparr>,
            \<lparr>c_repo = ''acme/web'', c_path = ''.github/workflows/release.yml'', c_url = ''u3''\<rparr>]\<rparr>\<rparr>),
        content_get = (\<lambda>u t. Inr \<lparr>r_status = 200, r_text = '''', r_reset = None, r_json = Inr \<lparr>ci_encoding = ''utf-8'', ci_content = ''jobs: {build: {steps: [{uses: a/b@v1}]}}''\<rparr>\<rparr>),
        yaml_safe_load = (\<lambda>s. Inr (YMap [(YStr ''jobs'', YMap [(YStr ''build'', YMap [(YStr ''steps'', YList [YMap [(YStr ''uses'', YStr ''a/b@v1'')]])])])])),
        b64decode_utf8 = (\<lambda>s. Inl DecodeError),
        int_of_str = (\<lambda>s. Inl ValueError),
        now = 0,
        fs_open = (\<lambda>p. None),
        fs_write = (\<lambda>p k. None),
        fs_close = (\<lambda>p. None)\<rparr>"
  let ?A = "\<lparr>arg_org = ''acme'', arg_action = ''a/b'', arg_token = Some ''tok'',
        arg_output = ''action_usage_report.txt'', arg_broad_search = False\<rparr>"
  let ?items = "[\<lparr>c_repo = ''acme/web'', c_path = ''.github/workflows/ci.yml'', c_url = ''u1''\<rparr>,
            \<lparr>c_repo = ''acme/api'', c_path = ''.github/workflows/ci.yml'', c_url = ''u2''\<rparr>,
            \<lparr>c_repo = ''acme/web'', c_path = ''.github/workflows/release.yml'', c_url = ''u3''\<rparr>]"
  have h1: "arg_token ?A = Some ''tok''" by simp
  have h2: "fst (search_for_action ?W (arg_org ?A) (arg_action ?A) ''tok'' (arg_broad_search ?A))
            = Inr ?items"
    by (simp add: search_for_action_def search_try_def raise_for_status_def rate_limited_def)
  have h3: "run_outcome (main ?W ?A) = Exit 0"
    by (simp add: main_def search_for_action_def search_try_def search_url_def search_query_def raise_for_status_def rate_limited_def scan_loop_def process_item_def get_file_content_def analyze_workflow_content_def extract_instances_def step_uses_action_def make_instance_def str_of_nat_digit digit_char_def basename_def ensure_repo_def record_instances_def write_report_def write_repo_def write_instance_def write_inputs_def with_report_file_def Let_def)
  have D: "discovered ?W (arg_action ?A) ''tok'' ?items =
     [(''acme/web'', \<lparr>u_workflow = ''ci.yml'', u_path = ''.github/workflows/ci.yml'', u_instance = \<lparr>job = YStr ''build'', step_name = YStr ''Step 1'', action_ref = YStr ''a/b@v1'', inputs = YMap []\<rparr>\<rparr>),
      (''acme/api'', \<lparr>u_workflow = ''ci.yml'', u_path = ''.github/workflows/ci.yml'', u_instance = \<lparr>job = YStr ''build'', step_name = YStr ''Step 1'', action_ref = YStr ''a/b@v1'', inputs = YMap []\<rparr>\<rparr>),
      (''acme/web'', \<lparr>u_workflow = ''release.yml'', u_path = ''.github/workflows/release.yml'', u_instance = \<lparr>job = YStr ''build'', step_name = YStr ''Step 1'', action_ref = YStr ''a/b@v1'', inputs = YMap []\<rparr>\<rparr>)]"
    by (simp add: discovered_def found_in_def get_file_content_def raise_for_status_def
        analyze_workflow_content_def extract_instances_def step_uses_action_def make_instance_def
        str_of_nat_digit digit_char_def basename_def)
  have S: "sorted_list_of_set (fst ` set
     [(''acme/web'', \<lparr>u_workflow = ''ci.yml'', u_path = ''.github/workflows/ci.yml'', u_instance = \<lparr>job = YStr ''build'', step_name = YStr ''Step 1'', action_ref = YStr ''a/b@v1'', inputs = YMap []\<rparr>\<rparr>),
      (''acme/api'', \<lparr>u_workflow = ''ci.yml'', u_path = ''.github/workflows/ci.yml'', u_instance = \<lparr>job = YStr ''build'', step_name = YStr ''Step 1'', action_ref = YStr ''a/b@v1'', inputs = YMap []\<rparr>\<rparr>),
      (''acme/web'', \<lparr>u_workflow = ''release.yml'', u_path = ''.github/workflows/release.yml'', u_instance = \<lparr>job = YStr ''build'', step_name = YStr ''Step 1'', action_ref = YStr ''a/b@v1'', inputs = YMap []\<rparr>\<rparr>)]) = [''acme/api'', ''acme/web'']"
    by code_simp
  have C: "card (fst ` set
     [(''acme/web'', \<lparr>u_workflow = ''ci.yml'', u_path = ''.github/workflows/ci.yml'', u_instance = \<lparr>job = YStr ''build'', step_name = YStr ''Step 1'', action_ref = YStr ''a/b@v1'', inputs = YMap []\<rparr>\<rparr>),
      (''acme/api'', \<lparr>u_workflow = ''ci.yml'', u_path = ''.github/workflows/ci.yml'', u_instance = \<lparr>job = YStr ''build'', step_name = YStr ''Step 1'', action_ref = YStr ''a/b@v1'', inputs = YMap []\<rparr>\<rparr>),
      (''acme/web'', \<lparr>u_workflow = ''release.yml'', u_path = ''.github/workflows/release.yml'', u_instance = \<lparr>job = YStr ''build'', step_name = YStr ''Step 1'', action_ref = YStr ''a/b@v1'', inputs = YMap []\<rparr>\<rparr>)]) = 2"
    by code_simp
  show ?thesis
    using report_order[OF h1 h2 h3 refl]
    unfolding D spec_report_def S C
    by (simp add: usages_of_def spec_repo_section_def spec_instance_section_def)
qed

section \<open>Containment of failures\<close>






















end
